theory Spec2Isabelle
  imports Main "HOL-Library.Sublist"
begin

section \<open>Strings\<close>

text \<open>
  Go strings are byte sequences, and so are HOL strings: \<open>len(s)\<close> is \<open>length s\<close>
  and \<open>s[i:]\<close> is \<open>drop i s\<close>. The functions of Go's \<open>strings\<close> package that
  the analyzer calls are modelled here.
\<close>

text \<open>\<open>strings.Index(s, substr)\<close>: the index of the first occurrence, \<open>None\<close> for Go's -1.\<close>

fun Index :: "string \<Rightarrow> string \<Rightarrow> nat option" where
  "Index [] substr = (if substr = [] then Some 0 else None)"
| "Index (c # cs) substr =
     (if prefix substr (c # cs) then Some 0 else map_option Suc (Index cs substr))"

text \<open>\<open>strings.Contains(s, substr)\<close> is \<open>Index(s, substr) >= 0\<close>.\<close>

definition Contains :: "string \<Rightarrow> string \<Rightarrow> bool" where
  "Contains s substr = (Index s substr \<noteq> None)"

text \<open>\<open>strings.Split(s, ",")\<close>: the segments between the separators, one more than
  there are separators.\<close>

fun Split :: "string \<Rightarrow> char \<Rightarrow> string list" where
  "Split [] sep = [[]]"
| "Split (c # cs) sep =
     (if c = sep then [] # Split cs sep
      else (case Split cs sep of
              [] \<Rightarrow> [[c]]
            | seg # segs \<Rightarrow> (c # seg) # segs))"

text \<open>\<open>strings.Join(elems, ",")\<close>.\<close>

fun Join :: "string list \<Rightarrow> char \<Rightarrow> string" where
  "Join [] sep = []"
| "Join [e] sep = e"
| "Join (e # e' # es) sep = e @ sep # Join (e' # es) sep"

text \<open>\<open>strings.ToLower\<close> on ASCII text: the letters A to Z (bytes 65 to 90) are moved
  to a to z, every other byte is kept. Service names are segments of Go import paths.\<close>

definition toLowerChar :: "char \<Rightarrow> char" where
  "toLowerChar c =
     (let n = (of_char c :: nat) in if 65 \<le> n \<and> n \<le> 90 then char_of (n + 32) else c)"

definition ToLower :: "string \<Rightarrow> string" where
  "ToLower s = map toLowerChar s"

section \<open>Configuration\<close>

definition defaultPaginationTokenFields :: "string list" where
  "defaultPaginationTokenFields =
     [''NextToken'', ''NextMarker'', ''Marker'', ''NextContinuationToken'',
      ''ContinuationToken'', ''NextPageToken'', ''NextPageMarker'']"

definition apiSpecificPaginationFields :: "string \<rightharpoonup> string list" where
  "apiSpecificPaginationFields =
     [''dynamodb'' \<mapsto> [''LastEvaluatedKey''],
      ''apigateway'' \<mapsto> [''Position''],
      ''route53'' \<mapsto> [''IsTruncated'', ''NextRecordName'', ''NextRecordType'',
                       ''NextRecordIdentifier'']]"

text \<open>The package-level \<open>config\<close> variable is passed explicitly.\<close>

record Config =
  CustomTokenFields :: "string list"
  IncludeTests :: bool

text \<open>A Go \<open>error\<close> value: \<open>None\<close> is \<open>nil\<close>.\<close>

type_synonym error = "string option"

text \<open>\<open>(*stringSliceFlag).Set\<close>: the receiver's slice is passed in and returned
  beside the error.\<close>

definition Set :: "string list \<Rightarrow> string \<Rightarrow> error \<times> string list" where
  "Set s v = (if v = [] then (None, s) else (None, s @ Split v CHR '',''))"

definition getPaginationTokenFields :: "Config \<Rightarrow> string list" where
  "getPaginationTokenFields cfg = defaultPaginationTokenFields @ CustomTokenFields cfg"

section \<open>The type graph\<close>

text \<open>
  The values of \<open>go/types\<close> are objects compared by identity, and a type may refer to
  itself through its fields. A type graph is a store: a list of type nodes, a type
  being its index. \<open>seen map[types.Type]bool\<close> is a set of indices.
\<close>

type_synonym tid = nat

text \<open>\<open>*types.Var\<close>, as a struct field.\<close>

record var =
  Name :: string
  Type :: tid
  Embedded :: bool

text \<open>
  \<open>Pointer e\<close> has element type \<open>e\<close>. \<open>Named pkg name u\<close> is declared as \<open>name\<close> in
  the package of path \<open>pkg\<close> (\<open>None\<close> when \<open>Obj().Pkg()\<close> is nil) with underlying type
  \<open>u\<close>. \<open>Tuple ts\<close> is the result of a call returning several values. \<open>Other\<close> stands
  for every remaining kind (basic types, slices, maps, interfaces, ...).
\<close>

datatype gotype =
    Pointer tid
  | Named "string option" string tid
  | Struct "var list"
  | Tuple "tid list"
  | Other

type_synonym types = "gotype list"

definition typeAt :: "types \<Rightarrow> tid \<Rightarrow> gotype" where
  "typeAt S t = (if t < length S then S ! t else Other)"

text \<open>\<open>if ptr, ok := t.(*types.Pointer); ok { t = ptr.Elem() }\<close>\<close>

definition Elem :: "types \<Rightarrow> tid \<Rightarrow> tid" where
  "Elem S t = (case typeAt S t of Pointer e \<Rightarrow> e | _ \<Rightarrow> t)"

text \<open>\<open>if named, ok := t.(*types.Named); ok { t = named.Underlying() }\<close>, read as the
  node that \<open>t\<close> then denotes.\<close>

definition Underlying :: "types \<Rightarrow> tid \<Rightarrow> gotype" where
  "Underlying S t = (case typeAt S t of Named pkg name u \<Rightarrow> typeAt S u | ty \<Rightarrow> ty)"

lemma Underlying_Struct_in_store: "Underlying S t = Struct st \<Longrightarrow> t < length S"
  by (auto simp: Underlying_def typeAt_def split: if_splits)

lemma card_unseen_insert:
  "t < n \<Longrightarrow> t \<notin> seen \<Longrightarrow> card ({..<n} - insert t seen) < card ({..<n} - (seen::nat set))"
  by (rule psubset_card_mono) auto

lemma card_unseen_mono:
  "seen \<subseteq> seen' \<Longrightarrow> card ({..<n} - seen') \<le> card ({..<n} - (seen::nat set))"
  by (rule card_mono) auto

section \<open>Field resolution\<close>

subsection \<open>hasSpecificField\<close>

text \<open>
  The function and its loop over the embedded fields, with the \<open>seen\<close> map threaded
  through: each returns its result and the map as it leaves it.
\<close>

function hasSpecificField :: "types \<Rightarrow> tid \<Rightarrow> string \<Rightarrow> tid set \<Rightarrow> bool \<times> tid set"
  and hasSpecificField_embedded :: "types \<Rightarrow> var list \<Rightarrow> string \<Rightarrow> tid set \<Rightarrow> bool \<times> tid set"
where
  "hasSpecificField S t0 fieldName seen =
     (let t = Elem S t0 in
      if t \<in> seen then (False, seen)
      else let seen1 = insert t seen in
        (case Underlying S t of
           Struct st \<Rightarrow>
             if list_ex (\<lambda>field. Name field = fieldName) st then (True, seen1)
             else hasSpecificField_embedded S st fieldName seen1
         | _ \<Rightarrow> (False, seen1)))"
| "hasSpecificField_embedded S [] fieldName seen = (False, seen)"
| "hasSpecificField_embedded S (field # rest) fieldName seen =
     (if Embedded field then
        (case hasSpecificField S (Type field) fieldName seen of
           (True, seen1) \<Rightarrow> (True, seen1)
         | (False, seen1) \<Rightarrow> hasSpecificField_embedded S rest fieldName seen1)
      else hasSpecificField_embedded S rest fieldName seen)"
  by pat_completeness auto

lemma hasSpecificField_seen_mono_dom:
  "hasSpecificField_hasSpecificField_embedded_dom (Inl (S, t0, fieldName, seen)) \<Longrightarrow>
     seen \<subseteq> snd (hasSpecificField S t0 fieldName seen)"
  "hasSpecificField_hasSpecificField_embedded_dom (Inr (S, fs, fieldName, seen)) \<Longrightarrow>
     seen \<subseteq> snd (hasSpecificField_embedded S fs fieldName seen)"
proof (induction rule: hasSpecificField_hasSpecificField_embedded.pinduct)
  case (1 S t0 fieldName seen)
  then show ?case
    by (auto simp: hasSpecificField.psimps Let_def split: gotype.splits)
next
  case (2 S fieldName seen)
  then show ?case by (simp add: hasSpecificField_embedded.psimps)
next
  case (3 S field rest fieldName seen)
  show ?case
  proof (cases "Embedded field")
    case False
    with 3 show ?thesis by (simp add: hasSpecificField_embedded.psimps)
  next
    case True
    obtain b y where r: "hasSpecificField S (Type field) fieldName seen = (b, y)"
      by (cases "hasSpecificField S (Type field) fieldName seen")
    from 3(2)[OF True] r have sy: "seen \<subseteq> y" by simp
    show ?thesis
    proof (cases b)
      case True
      with r sy \<open>Embedded field\<close> 3(1) show ?thesis
        by (simp add: hasSpecificField_embedded.psimps)
    next
      case False
      then have "b = False" by simp
      from 3(3)[OF \<open>Embedded field\<close> r[symmetric] this] sy
      have "seen \<subseteq> snd (hasSpecificField_embedded S rest fieldName y)" by blast
      with r False \<open>Embedded field\<close> 3(1) show ?thesis
        by (simp add: hasSpecificField_embedded.psimps)
    qed
  qed
qed

text \<open>Termination: every call that goes on adds a type of the store to \<open>seen\<close>, and
  the loop shortens its list while \<open>seen\<close> can only grow.\<close>

lemma hasSpecificField_total: "All hasSpecificField_hasSpecificField_embedded_dom"
proof (relation "inv_image (less_than <*lex*> less_than)
     (\<lambda>x. case x of
         Inl (S, t, fn, seen) \<Rightarrow> (card ({..<length S} - seen), 0)
       | Inr (S, fs, fn, seen) \<Rightarrow> (card ({..<length S} - seen), Suc (length fs)))",
     goal_cases)
  case 1
  show ?case by (intro wf_inv_image wf_lex_prod wf_less_than)
next
  case (2 S t0 fieldName seen x xa x3)
  then show ?case
    using card_unseen_insert[of "Elem S t0" "length S" seen]
      Underlying_Struct_in_store[of S "Elem S t0" x3]
    by simp
next
  case (3 S field rest fieldName seen)
  then show ?case by simp
next
  case (4 S field rest fieldName seen x y)
  then have "seen \<subseteq> y"
    using hasSpecificField_seen_mono_dom(1)[of S "Type field" fieldName seen]
    by (metis snd_conv)
  then have "card ({..<length S} - y) \<le> card ({..<length S} - seen)"
    by (rule card_unseen_mono)
  then show ?case by auto
next
  case (5 S field rest fieldName seen)
  then show ?case by simp
qed

termination hasSpecificField
  by (rule hasSpecificField_total)

declare hasSpecificField.simps [simp del]

subsection \<open>hasPaginationTokenFieldRecursive\<close>

text \<open>The two nested loops over the candidate names and the direct fields: the first
  candidate, in the order of the list, that some direct field is named.\<close>

fun findDirectField :: "var list \<Rightarrow> string list \<Rightarrow> string option" where
  "findDirectField st [] = None"
| "findDirectField st (tokenField # rest) =
     (if list_ex (\<lambda>field. Name field = tokenField) st then Some tokenField
      else findDirectField st rest)"

text \<open>The empty string is the "not found" result, as in the source.\<close>

function hasPaginationTokenFieldRecursive ::
    "Config \<Rightarrow> types \<Rightarrow> tid \<Rightarrow> tid set \<Rightarrow> string \<times> tid set"
  and hasPaginationTokenFieldRecursive_embedded ::
    "Config \<Rightarrow> types \<Rightarrow> var list \<Rightarrow> tid set \<Rightarrow> string \<times> tid set"
where
  "hasPaginationTokenFieldRecursive cfg S t0 seen =
     (let t = Elem S t0 in
      if t \<in> seen then ('''', seen)
      else let seen1 = insert t seen in
        (case Underlying S t of
           Struct st \<Rightarrow>
             (case findDirectField st (getPaginationTokenFields cfg) of
                Some tokenField \<Rightarrow> (tokenField, seen1)
              | None \<Rightarrow> hasPaginationTokenFieldRecursive_embedded cfg S st seen1)
         | _ \<Rightarrow> ('''', seen1)))"
| "hasPaginationTokenFieldRecursive_embedded cfg S [] seen = ('''', seen)"
| "hasPaginationTokenFieldRecursive_embedded cfg S (field # rest) seen =
     (if Embedded field then
        (case hasPaginationTokenFieldRecursive cfg S (Type field) seen of
           (tokenField, seen1) \<Rightarrow>
             if tokenField \<noteq> '''' then (tokenField, seen1)
             else hasPaginationTokenFieldRecursive_embedded cfg S rest seen1)
      else hasPaginationTokenFieldRecursive_embedded cfg S rest seen)"
  by pat_completeness auto

lemma hasPaginationTokenFieldRecursive_seen_mono_dom:
  "hasPaginationTokenFieldRecursive_hasPaginationTokenFieldRecursive_embedded_dom
     (Inl (cfg, S, t0, seen)) \<Longrightarrow>
     seen \<subseteq> snd (hasPaginationTokenFieldRecursive cfg S t0 seen)"
  "hasPaginationTokenFieldRecursive_hasPaginationTokenFieldRecursive_embedded_dom
     (Inr (cfg, S, fs, seen)) \<Longrightarrow>
     seen \<subseteq> snd (hasPaginationTokenFieldRecursive_embedded cfg S fs seen)"
proof (induction rule:
    hasPaginationTokenFieldRecursive_hasPaginationTokenFieldRecursive_embedded.pinduct)
  case (1 cfg S t0 seen)
  then show ?case
    by (auto simp: hasPaginationTokenFieldRecursive.psimps Let_def
        split: gotype.splits option.splits)
next
  case (2 cfg S seen)
  then show ?case by (simp add: hasPaginationTokenFieldRecursive_embedded.psimps)
next
  case (3 cfg S field rest seen)
  show ?case
  proof (cases "Embedded field")
    case False
    with 3 show ?thesis by (simp add: hasPaginationTokenFieldRecursive_embedded.psimps)
  next
    case True
    obtain r y where r: "hasPaginationTokenFieldRecursive cfg S (Type field) seen = (r, y)"
      by (cases "hasPaginationTokenFieldRecursive cfg S (Type field) seen")
    from 3(2)[OF True] r have sy: "seen \<subseteq> y" by simp
    show ?thesis
    proof (cases "r \<noteq> ''''")
      case True
      with r sy \<open>Embedded field\<close> 3(1) show ?thesis
        by (simp add: hasPaginationTokenFieldRecursive_embedded.psimps)
    next
      case False
      from 3(3)[OF \<open>Embedded field\<close> r[symmetric] False] sy
      have "seen \<subseteq> snd (hasPaginationTokenFieldRecursive_embedded cfg S rest y)" by blast
      with r False \<open>Embedded field\<close> 3(1) show ?thesis
        by (simp add: hasPaginationTokenFieldRecursive_embedded.psimps)
    qed
  qed
qed

lemma hasPaginationTokenFieldRecursive_total: "All hasPaginationTokenFieldRecursive_hasPaginationTokenFieldRecursive_embedded_dom"
proof (relation "inv_image (less_than <*lex*> less_than)
     (\<lambda>x. case x of
         Inl (cfg, S, t, seen) \<Rightarrow> (card ({..<length S} - seen), 0)
       | Inr (cfg, S, fs, seen) \<Rightarrow> (card ({..<length S} - seen), Suc (length fs)))",
     goal_cases)
  case 1
  show ?case by (intro wf_inv_image wf_lex_prod wf_less_than)
next
  case (2 cfg S t0 seen x xa x3)
  then show ?case
    using card_unseen_insert[of "Elem S t0" "length S" seen]
      Underlying_Struct_in_store[of S "Elem S t0" x3]
    by simp
next
  case (3 cfg S field rest seen)
  then show ?case by simp
next
  case (4 cfg S field rest seen x y)
  then have "seen \<subseteq> y"
    using hasPaginationTokenFieldRecursive_seen_mono_dom(1)[of cfg S "Type field" seen]
    by (metis snd_conv)
  then have "card ({..<length S} - y) \<le> card ({..<length S} - seen)"
    by (rule card_unseen_mono)
  then show ?case by auto
next
  case (5 cfg S field rest seen)
  then show ?case by simp
qed

termination hasPaginationTokenFieldRecursive
  by (rule hasPaginationTokenFieldRecursive_total)

declare hasPaginationTokenFieldRecursive.simps [simp del]

subsection \<open>hasPaginationTokenField and getAllPaginationTokenFields\<close>

text \<open>The loop of \<open>hasPaginationTokenField\<close> over the service's fields. All its calls
  of \<open>hasSpecificField\<close> work on the one \<open>seen\<close> map of the caller.\<close>

fun hasPaginationTokenField_fields ::
    "types \<Rightarrow> tid \<Rightarrow> string list \<Rightarrow> tid set \<Rightarrow> string option \<times> tid set" where
  "hasPaginationTokenField_fields S t [] seen = (None, seen)"
| "hasPaginationTokenField_fields S t (field # rest) seen =
     (case hasSpecificField S t field seen of
        (True, seen1) \<Rightarrow> (Some field, seen1)
      | (False, seen1) \<Rightarrow> hasPaginationTokenField_fields S t rest seen1)"

definition hasPaginationTokenField :: "Config \<Rightarrow> types \<Rightarrow> tid \<Rightarrow> string \<Rightarrow> string" where
  "hasPaginationTokenField cfg S t serviceName =
     (let seen = {};
          specific =
            (if serviceName \<noteq> '''' then
               (case apiSpecificPaginationFields (ToLower serviceName) of
                  Some serviceFields \<Rightarrow> hasPaginationTokenField_fields S t serviceFields seen
                | None \<Rightarrow> (None, seen))
             else (None, seen))
      in case specific of
           (Some field, seen1) \<Rightarrow> field
         | (None, seen1) \<Rightarrow> fst (hasPaginationTokenFieldRecursive cfg S t seen1))"

text \<open>The loop of \<open>getAllPaginationTokenFields\<close> over the service's fields, appending
  to the result slice \<open>found\<close> (\<open>fields\<close> in the source). Each check gets a map of
  its own.\<close>

fun getAllPaginationTokenFields_fields ::
    "types \<Rightarrow> tid \<Rightarrow> string list \<Rightarrow> string list \<Rightarrow> string list" where
  "getAllPaginationTokenFields_fields S t [] found = found"
| "getAllPaginationTokenFields_fields S t (field # serviceFields) found =
     (let seen = {} in
      if fst (hasSpecificField S t field seen)
      then getAllPaginationTokenFields_fields S t serviceFields (found @ [field])
      else getAllPaginationTokenFields_fields S t serviceFields found)"

definition getAllPaginationTokenFields ::
    "Config \<Rightarrow> types \<Rightarrow> tid \<Rightarrow> string \<Rightarrow> string list" where
  "getAllPaginationTokenFields cfg S t serviceName =
     (let found =
            (if serviceName \<noteq> '''' then
               (case apiSpecificPaginationFields (ToLower serviceName) of
                  Some serviceFields \<Rightarrow> getAllPaginationTokenFields_fields S t serviceFields []
                | None \<Rightarrow> [])
             else [])
      in if found \<noteq> [] then found
         else let seen = {};
                  defaultField = fst (hasPaginationTokenFieldRecursive cfg S t seen)
              in if defaultField \<noteq> '''' then found @ [defaultField] else found)"

section \<open>Provenance\<close>

definition isAWSSDKPackage :: "string \<Rightarrow> bool" where
  "isAWSSDKPackage pkgPath = Contains pkgPath ''aws-sdk-go-v2/service/''"

text \<open>\<open>named, ok := t.(*types.Named)\<close> with \<open>pkg != nil && isAWSSDKPackage(pkg.Path())\<close>.\<close>

definition namedInAWSSDKPackage :: "types \<Rightarrow> tid \<Rightarrow> bool" where
  "namedInAWSSDKPackage S t =
     (case typeAt S t of
        Named pkg name u \<Rightarrow> (case pkg of Some path \<Rightarrow> isAWSSDKPackage path | None \<Rightarrow> False)
      | _ \<Rightarrow> False)"

function isAWSSDKTypeRecursive :: "types \<Rightarrow> tid \<Rightarrow> tid set \<Rightarrow> bool \<times> tid set"
  and isAWSSDKTypeRecursive_fields :: "types \<Rightarrow> var list \<Rightarrow> tid set \<Rightarrow> bool \<times> tid set"
where
  "isAWSSDKTypeRecursive S t0 seen =
     (let t = Elem S t0 in
      if t \<in> seen then (False, seen)
      else let seen1 = insert t seen in
        if namedInAWSSDKPackage S t then (True, seen1)
        else (case Underlying S t of
                Struct st \<Rightarrow> isAWSSDKTypeRecursive_fields S st seen1
              | _ \<Rightarrow> (False, seen1)))"
| "isAWSSDKTypeRecursive_fields S [] seen = (False, seen)"
| "isAWSSDKTypeRecursive_fields S (field # rest) seen =
     (case isAWSSDKTypeRecursive S (Type field) seen of
        (True, seen1) \<Rightarrow> (True, seen1)
      | (False, seen1) \<Rightarrow> isAWSSDKTypeRecursive_fields S rest seen1)"
  by pat_completeness auto

lemma isAWSSDKTypeRecursive_seen_mono_dom:
  "isAWSSDKTypeRecursive_isAWSSDKTypeRecursive_fields_dom (Inl (S, t0, seen)) \<Longrightarrow>
     seen \<subseteq> snd (isAWSSDKTypeRecursive S t0 seen)"
  "isAWSSDKTypeRecursive_isAWSSDKTypeRecursive_fields_dom (Inr (S, fs, seen)) \<Longrightarrow>
     seen \<subseteq> snd (isAWSSDKTypeRecursive_fields S fs seen)"
proof (induction rule: isAWSSDKTypeRecursive_isAWSSDKTypeRecursive_fields.pinduct)
  case (1 S t0 seen)
  then show ?case
    by (auto simp: isAWSSDKTypeRecursive.psimps Let_def split: gotype.splits)
next
  case (2 S seen)
  then show ?case by (simp add: isAWSSDKTypeRecursive_fields.psimps)
next
  case (3 S field rest seen)
  obtain b y where r: "isAWSSDKTypeRecursive S (Type field) seen = (b, y)"
    by (cases "isAWSSDKTypeRecursive S (Type field) seen")
  from 3(2) r have sy: "seen \<subseteq> y" by simp
  show ?case
  proof (cases b)
    case True
    with r sy 3(1) show ?thesis
      by (simp add: isAWSSDKTypeRecursive_fields.psimps)
  next
    case False
    then have "b = False" by simp
    from 3(3)[OF r[symmetric] this] sy
    have "seen \<subseteq> snd (isAWSSDKTypeRecursive_fields S rest y)" by blast
    with r False 3(1) show ?thesis
      by (simp add: isAWSSDKTypeRecursive_fields.psimps)
  qed
qed

lemma isAWSSDKTypeRecursive_total: "All isAWSSDKTypeRecursive_isAWSSDKTypeRecursive_fields_dom"
proof (relation "inv_image (less_than <*lex*> less_than)
     (\<lambda>x. case x of
         Inl (S, t, seen) \<Rightarrow> (card ({..<length S} - seen), 0)
       | Inr (S, fs, seen) \<Rightarrow> (card ({..<length S} - seen), Suc (length fs)))",
     goal_cases)
  case 1
  show ?case by (intro wf_inv_image wf_lex_prod wf_less_than)
next
  case (2 S t0 seen x xa x3)
  then show ?case
    using card_unseen_insert[of "Elem S t0" "length S" seen]
      Underlying_Struct_in_store[of S "Elem S t0" x3]
    by simp
next
  case (3 S field rest seen)
  then show ?case by simp
next
  case (4 S field rest seen x y)
  then have "seen \<subseteq> y"
    using isAWSSDKTypeRecursive_seen_mono_dom(1)[of S "Type field" seen]
    by (metis snd_conv)
  then have "card ({..<length S} - y) \<le> card ({..<length S} - seen)"
    by (rule card_unseen_mono)
  then show ?case by auto
qed

termination isAWSSDKTypeRecursive
  by (rule isAWSSDKTypeRecursive_total)

declare isAWSSDKTypeRecursive.simps [simp del]

definition isAWSSDKType :: "types \<Rightarrow> tid \<Rightarrow> bool" where
  "isAWSSDKType S t = fst (isAWSSDKTypeRecursive S t {})"

section \<open>Syntax trees\<close>

text \<open>
  The nodes of \<open>go/ast\<close> that the analyzer tells apart. \<open>SelectorExpr x sel\<close> is
  \<open>x.sel\<close>, with \<open>sel\<close> the name of its \<open>Sel\<close> identifier. \<open>CallExpr c fn args\<close> is
  the call \<open>fn(args)\<close>; \<open>c\<close> identifies the call expression (the key of
  \<open>TypesInfo.Types\<close>, and the position a diagnostic is reported at). \<open>OtherNode\<close>
  is any other statement or expression, with its children in source order.
\<close>

datatype node =
    Ident string
  | SelectorExpr node string
  | CallExpr nat node "node list"
  | AssignStmt "node list" "node list"
  | BlockStmt "node list"
  | OtherNode "node list"

text \<open>\<open>ast.Inspect\<close> calls its function on every node in depth-first order, parents
  first, as long as the function returns true; the functions passed here always do.
  These are the nodes in the order of the calls.\<close>

fun inspectNodes :: "node \<Rightarrow> node list" where
  "inspectNodes (Ident name) = [Ident name]"
| "inspectNodes (SelectorExpr x sel) = SelectorExpr x sel # inspectNodes x @ [Ident sel]"
| "inspectNodes (CallExpr c fn args) =
     CallExpr c fn args # inspectNodes fn @ concat (map inspectNodes args)"
| "inspectNodes (AssignStmt lhs rhs) =
     AssignStmt lhs rhs # concat (map inspectNodes lhs) @ concat (map inspectNodes rhs)"
| "inspectNodes (BlockStmt stmts) = BlockStmt stmts # concat (map inspectNodes stmts)"
| "inspectNodes (OtherNode children) = OtherNode children # concat (map inspectNodes children)"

section \<open>Consumption scanning\<close>

text \<open>The loop over \<open>tokenFields\<close> for a selector \<open>x.sel\<close>: whether it sets
  \<open>hasTokenAccess\<close>.\<close>

fun isTokenAccess :: "node \<Rightarrow> string \<Rightarrow> string \<Rightarrow> string list \<Rightarrow> bool" where
  "isTokenAccess x sel varName [] = False"
| "isTokenAccess x sel varName (tokenField # rest) =
     (if sel = tokenField \<and> (case x of Ident name \<Rightarrow> name = varName | _ \<Rightarrow> False) then True
      else isTokenAccess x sel varName rest)"

text \<open>The two tests on the name of a called selector.\<close>

definition isPaginatorName :: "string \<Rightarrow> bool" where
  "isPaginatorName name =
     ((length name > 9 \<and> drop (length name - 9) name = ''Paginator'')
      \<or> (name = ''HasMorePages'' \<or> name = ''NextPage''))"

text \<open>The function passed to \<open>ast.Inspect\<close>, on the pair of flags
  \<open>(hasTokenAccess, hasPaginatorUsage)\<close>.\<close>

definition inspectStep :: "string \<Rightarrow> string list \<Rightarrow> bool \<times> bool \<Rightarrow> node \<Rightarrow> bool \<times> bool" where
  "inspectStep varName tokenFields flags n =
     (let hasTokenAccess =
            (case n of
               SelectorExpr x sel \<Rightarrow>
                 if isTokenAccess x sel varName tokenFields then True else fst flags
             | _ \<Rightarrow> fst flags);
          hasPaginatorUsage =
            (case n of
               CallExpr c fn args \<Rightarrow>
                 (case fn of
                    SelectorExpr x sel \<Rightarrow> if isPaginatorName sel then True else snd flags
                  | _ \<Rightarrow> snd flags)
             | _ \<Rightarrow> snd flags)
      in (hasTokenAccess, hasPaginatorUsage))"

definition hasPaginationHandling :: "node \<Rightarrow> string \<Rightarrow> string list \<Rightarrow> bool" where
  "hasPaginationHandling body varName tokenFields =
     (let flags = foldl (inspectStep varName tokenFields) (False, False) (inspectNodes body)
      in fst flags \<or> snd flags)"

section \<open>Call sites\<close>

definition extractServiceNameFromPackage :: "string \<Rightarrow> string" where
  "extractServiceNameFromPackage pkgPath =
     (case Index pkgPath ''aws-sdk-go-v2/service/'' of
        None \<Rightarrow> ''''
      | Some idx \<Rightarrow>
          let servicePath = drop (idx + length ''aws-sdk-go-v2/service/'') pkgPath in
          (case Index servicePath ''/'' of
             Some slashIdx \<Rightarrow> take slashIdx servicePath
           | None \<Rightarrow> servicePath))"

record apiCallInfo =
  methodName :: string
  serviceName :: string
  typeName :: string

definition extractAPICallInfo :: "types \<Rightarrow> node \<Rightarrow> tid \<Rightarrow> apiCallInfo" where
  "extractAPICallInfo S fn resultType0 =
     (let m = (case fn of SelectorExpr x sel \<Rightarrow> sel | _ \<Rightarrow> '''');
          resultType = Elem S resultType0
      in case typeAt S resultType of
           Named pkg name u \<Rightarrow>
             \<lparr>methodName = m,
              serviceName = (case pkg of Some path \<Rightarrow> extractServiceNameFromPackage path
                                       | None \<Rightarrow> ''''),
              typeName = name\<rparr>
         | _ \<Rightarrow> \<lparr>methodName = m, serviceName = '''', typeName = ''''\<rparr>)"

text \<open>What the analyzer reads of \<open>analysis.Pass\<close>: the types of the call expressions,
  the type graph, and the configuration.\<close>

record Pass =
  TypesInfo :: "nat \<rightharpoonup> tid"
  Universe :: types
  Cfg :: Config

definition extractResultType :: "Pass \<Rightarrow> nat \<Rightarrow> tid option" where
  "extractResultType pass c =
     (case TypesInfo pass c of
        None \<Rightarrow> None
      | Some ty \<Rightarrow>
          (case typeAt (Universe pass) ty of
             Tuple ts \<Rightarrow> (case ts of [] \<Rightarrow> None | t # _ \<Rightarrow> Some t)
           | _ \<Rightarrow> Some ty))"

definition extractVariableName :: "node \<Rightarrow> string" where
  "extractVariableName lhs =
     (case lhs of
        Ident name \<Rightarrow> if name = ''_'' then '''' else name
      | _ \<Rightarrow> '''')"

section \<open>Diagnostics\<close>

text \<open>The line feed, Go's \<open>\n\<close>.\<close>

definition LF :: char where
  "LF = CHR 0x0A"

text \<open>The loop writing the fields of a multi-field message: \<open>i\<close> is the index of the
  first field of the list still to write, \<open>n\<close> is \<open>len(tokenFields)\<close>.\<close>

fun writeFields :: "nat \<Rightarrow> nat \<Rightarrow> string list \<Rightarrow> string" where
  "writeFields i n [] = ''''"
| "writeFields i n (field # rest) =
     (if i > 0 then (if i = n - 1 then '', and '' else '', '') else '''')
     @ field @ writeFields (Suc i) n rest"

definition buildErrorMessage :: "string list \<Rightarrow> string \<Rightarrow> apiCallInfo \<Rightarrow> string" where
  "buildErrorMessage tokenFields varName info =
     ''missing pagination handling for AWS SDK List API call''
     @ (if length tokenFields > 0 then
          (if length tokenFields = 1 then '' (result has '' @ hd tokenFields @ '' field)''
           else '' (result has '' @ writeFields 0 (length tokenFields) tokenFields @ '' fields)'')
        else '''')
     @ LF # ''When there are many results, only the first page is returned. Use ''
     @ (if serviceName info \<noteq> '''' \<and> methodName info \<noteq> ''''
        then ''New'' @ methodName info @ ''Paginator''
        else ''a paginator'')
     @ '' or loop with ''
     @ (if varName \<noteq> '''' then varName @ ''.'' else '''')
     @ (if length tokenFields > 0 then
          (if length tokenFields = 1 then hd tokenFields @ ''.''
           else hd tokenFields @ '' (or other pagination fields).'')
        else '''')"

record Diagnostic =
  Pos :: nat
  Message :: string

section \<open>checkAssignment\<close>

text \<open>The body of the loop over \<open>assignStmt.Rhs\<close>, for the right-hand side at index
  \<open>i\<close>: the diagnostic it reports, \<open>None\<close> where it reaches a \<open>continue\<close>.\<close>

definition checkRhs :: "Pass \<Rightarrow> node list \<Rightarrow> node \<Rightarrow> nat \<Rightarrow> node \<Rightarrow> Diagnostic option" where
  "checkRhs pass lhs body i rightHandSide =
     (case rightHandSide of
        CallExpr c fn args \<Rightarrow>
          if i \<ge> length lhs then None
          else (case extractResultType pass c of
            None \<Rightarrow> None
          | Some resultType \<Rightarrow>
              let apiInfo = extractAPICallInfo (Universe pass) fn resultType;
                  tokenField = hasPaginationTokenField (Cfg pass) (Universe pass) resultType
                                 (serviceName apiInfo)
              in if tokenField = '''' then None
                 else if \<not> isAWSSDKType (Universe pass) resultType then None
                 else let varName = extractVariableName (lhs ! i)
                   in if varName = '''' then None
                      else let allTokenFields =
                                 getAllPaginationTokenFields (Cfg pass) (Universe pass)
                                   resultType (serviceName apiInfo)
                        in if length allTokenFields = 0 then None
                           else if hasPaginationHandling body varName allTokenFields then None
                           else Some \<lparr>Pos = c,
                                      Message = buildErrorMessage allTokenFields varName apiInfo\<rparr>)
      | _ \<Rightarrow> None)"

text \<open>\<open>checkAssignment\<close> for the statement \<open>lhs = rhs\<close> (or \<open>lhs := rhs\<close>) in a
  function of body \<open>body\<close>: the diagnostics in the order they are reported.\<close>

definition checkAssignment :: "Pass \<Rightarrow> node list \<Rightarrow> node list \<Rightarrow> node \<Rightarrow> Diagnostic list" where
  "checkAssignment pass lhs rhs body =
     List.map_filter (\<lambda>(i, rightHandSide). checkRhs pass lhs body i rightHandSide)
       (enumerate 0 rhs)"

section \<open>Example type graphs\<close>

definition defaultConfig :: Config where
  "defaultConfig = \<lparr>CustomTokenFields = [], IncludeTests = False\<rparr>"

text \<open>\<open>*dynamodb.ListExportsOutput\<close>: a DynamoDB output type paginated by \<open>NextToken\<close>.\<close>

definition exportsStore :: types where
  "exportsStore =
     [Pointer 1,
      Named (Some ''github.com/aws/aws-sdk-go-v2/service/dynamodb'') ''ListExportsOutput'' 2,
      Struct [\<lparr>Name = ''ExportSummaries'', Type = 3, Embedded = False\<rparr>,
              \<lparr>Name = ''NextToken'', Type = 3, Embedded = False\<rparr>],
      Other]"

text \<open>\<open>type Wrapped struct { *ecs.Inner; Marker *string }\<close>, where \<open>Inner\<close> has the
  field \<open>NextToken\<close>.\<close>

definition wrappedStore :: types where
  "wrappedStore =
     [Named (Some ''example.com/app'') ''Wrapped'' 1,
      Struct [\<lparr>Name = ''Inner'', Type = 2, Embedded = True\<rparr>,
              \<lparr>Name = ''Marker'', Type = 5, Embedded = False\<rparr>],
      Pointer 3,
      Named (Some ''github.com/aws/aws-sdk-go-v2/service/ecs'') ''Inner'' 4,
      Struct [\<lparr>Name = ''NextToken'', Type = 5, Embedded = False\<rparr>],
      Other]"


section \<open>Properties of type graphs\<close>


section \<open>Properties of function bodies and messages\<close>

text \<open>A call of a selector whose name passes the paginator test.\<close>

definition isPaginatorCall :: "node \<Rightarrow> bool" where
  "isPaginatorCall n =
     (case n of
        CallExpr c fn args \<Rightarrow>
          (case fn of SelectorExpr x sel \<Rightarrow> isPaginatorName sel | _ \<Rightarrow> False)
      | _ \<Rightarrow> False)"

text \<open>A selector that the direct-access test accepts.\<close>

definition isTokenAccessNode :: "string \<Rightarrow> string list \<Rightarrow> node \<Rightarrow> bool" where
  "isTokenAccessNode varName tokenFields n =
     (case n of SelectorExpr x sel \<Rightarrow> isTokenAccess x sel varName tokenFields | _ \<Rightarrow> False)"

text \<open>\<open>p := client.Paginator()\<close>\<close>

definition paginatorBody :: node where
  "paginatorBody =
     BlockStmt [AssignStmt [Ident ''p''] [CallExpr 0 (SelectorExpr (Ident ''client'') ''Paginator'') []]]"

text \<open>\<open>p := ecs.NewListTasksPaginator(client, input)\<close>\<close>

definition newPaginatorBody :: node where
  "newPaginatorBody =
     BlockStmt [AssignStmt [Ident ''p'']
       [CallExpr 0 (SelectorExpr (Ident ''ecs'') ''NewListTasksPaginator'')
          [Ident ''client'', Ident ''input'']]]"




definition listTasksInfo :: apiCallInfo where
  "listTasksInfo =
     \<lparr>methodName = ''ListTasks'', serviceName = ''ecs'', typeName = ''ListTasksOutput''\<rparr>"

section \<open>Example call sites\<close>

text \<open>The result of \<open>client.ListTasks(ctx, input)\<close>: type 0 is the tuple
  \<open>(*ecs.ListTasksOutput, error)\<close>.\<close>

definition listTasksStore :: types where
  "listTasksStore =
     [Tuple [1, 5],
      Pointer 2,
      Named (Some ''github.com/aws/aws-sdk-go-v2/service/ecs'') ''ListTasksOutput'' 3,
      Struct [\<lparr>Name = ''TaskArns'', Type = 4, Embedded = False\<rparr>,
              \<lparr>Name = ''NextToken'', Type = 4, Embedded = False\<rparr>],
      Other,
      Other]"

definition listTasksPass :: Pass where
  "listTasksPass = \<lparr>TypesInfo = [7 \<mapsto> 0], Universe = listTasksStore, Cfg = defaultConfig\<rparr>"

definition listTasksCall :: node where
  "listTasksCall =
     CallExpr 7 (SelectorExpr (Ident ''client'') ''ListTasks'') [Ident ''ctx'', Ident ''input'']"

text \<open>A function body that assigns the call to \<open>target, err\<close> and then only reads
  \<open>err\<close>.\<close>

definition unhandledBody :: "node \<Rightarrow> node" where
  "unhandledBody target =
     BlockStmt [AssignStmt [target, Ident ''err''] [listTasksCall],
                OtherNode [Ident ''err'']]"

section \<open>Reachability in type graphs\<close>

text \<open>
  One step of the provenance check: from a struct type, or a named type whose
  underlying type is a struct, to the type of any of its fields, with one pointer
  unwrapped.
\<close>

definition fieldStep :: "types \<Rightarrow> (tid \<times> tid) set" where
  "fieldStep S =
     {(u, v). \<exists>st f. Underlying S u = Struct st \<and> f \<in> set st \<and> v = Elem S (Type f)}"

text \<open>One step of the field check: the same, through embedded fields only.\<close>

definition embeddedStep :: "types \<Rightarrow> (tid \<times> tid) set" where
  "embeddedStep S =
     {(u, v). \<exists>st f. Underlying S u = Struct st \<and> f \<in> set st \<and> Embedded f
                     \<and> v = Elem S (Type f)}"

text \<open>The type \<open>u\<close> is a struct (behind a type name or not) with a direct field of the
  name.\<close>

definition declaresField :: "types \<Rightarrow> string \<Rightarrow> tid \<Rightarrow> bool" where
  "declaresField S fieldName u \<longleftrightarrow>
     (\<exists>st f. Underlying S u = Struct st \<and> f \<in> set st \<and> Name f = fieldName)"

text \<open>A field is structurally present in \<open>t\<close>: it is declared by \<open>t\<close> or by a type that
  \<open>t\<close> embeds, directly or through further embedded members.\<close>

definition fieldPresent :: "types \<Rightarrow> tid \<Rightarrow> string \<Rightarrow> bool" where
  "fieldPresent S t fieldName \<longleftrightarrow>
     (\<exists>u. (Elem S t, u) \<in> (embeddedStep S)\<^sup>* \<and> declaresField S fieldName u)"

text \<open>
  The steps named by the specification, each taken freely: from a pointer to its
  element, from a named type to its underlying type, from a struct to the type of a
  field.
\<close>

definition typeStep :: "types \<Rightarrow> (tid \<times> tid) set" where
  "typeStep S =
     {(a, b). typeAt S a = Pointer b \<or> (\<exists>pkg name. typeAt S a = Named pkg name b)
              \<or> (\<exists>st f. typeAt S a = Struct st \<and> f \<in> set st \<and> b = Type f)}"

text \<open>
  The state of a depth-first search that has not found its target: every type added to
  \<open>seen\<close> is no target, and all its successors have been added too.
\<close>

definition explored :: "(tid \<times> tid) set \<Rightarrow> (tid \<Rightarrow> bool) \<Rightarrow> tid set \<Rightarrow> tid set \<Rightarrow> bool" where
  "explored R T seen seen' \<longleftrightarrow>
     seen \<subseteq> seen' \<and> (\<forall>n \<in> seen' - seen. \<not> T n \<and> (\<forall>m. (n, m) \<in> R \<longrightarrow> m \<in> seen'))"

text \<open>\<open>type Wrapper struct { Count int; Output *ecs.ListTasksOutput }\<close>, with the SDK
  behind a proxy path.\<close>

definition wrapperStore :: types where
  "wrapperStore =
     [Named (Some ''example.com/app'') ''Wrapper'' 1,
      Struct [\<lparr>Name = ''Count'', Type = 5, Embedded = False\<rparr>,
              \<lparr>Name = ''Output'', Type = 2, Embedded = False\<rparr>],
      Pointer 3,
      Named (Some ''proxy.company.com/github.com/aws/aws-sdk-go-v2/service/ecs'')
        ''ListTasksOutput'' 4,
      Struct [],
      Other]"

text \<open>\<open>**s3.ListBucketsOutput\<close>: type 0 is the pointer to the pointer.\<close>

definition doublePointerStore :: types where
  "doublePointerStore =
     [Pointer 1,
      Pointer 2,
      Named (Some ''github.com/aws/aws-sdk-go-v2/service/s3'') ''ListBucketsOutput'' 3,
      Struct []]"

text \<open>\<open>*route53.ListHostedZonesOutput\<close>, which has \<open>IsTruncated\<close> of the service's
  fields and \<open>Marker\<close> and \<open>NextMarker\<close> of the default ones.\<close>

definition zonesStore :: types where
  "zonesStore =
     [Pointer 1,
      Named (Some ''github.com/aws/aws-sdk-go-v2/service/route53'') ''ListHostedZonesOutput'' 2,
      Struct [\<lparr>Name = ''HostedZones'', Type = 3, Embedded = False\<rparr>,
              \<lparr>Name = ''IsTruncated'', Type = 3, Embedded = False\<rparr>,
              \<lparr>Name = ''Marker'', Type = 3, Embedded = False\<rparr>,
              \<lparr>Name = ''NextMarker'', Type = 3, Embedded = False\<rparr>],
      Other]"

section \<open>Verification\<close>

subsection \<open>The flag value\<close>

lemma Split_nonempty: "Split v sep \<noteq> []"
  by (induction v) (auto split: list.splits)

lemma Join_Cons_nonempty: "segs \<noteq> [] \<Longrightarrow> Join (seg # segs) sep = seg @ sep # Join segs sep"
  by (cases segs) auto

lemma Join_Split: "Join (Split v sep) sep = v"
proof (induction v)
  case Nil
  then show ?case by simp
next
  case (Cons c cs)
  show ?case
  proof (cases "c = sep")
    case True
    with Cons show ?thesis by (simp add: Join_Cons_nonempty Split_nonempty)
  next
    case False
    obtain seg segs where s: "Split cs sep = seg # segs"
      using Split_nonempty[of cs sep] by (cases "Split cs sep") auto
    with Cons have "Join (seg # segs) sep = cs" by simp
    then have "Join ((c # seg) # segs) sep = c # cs"
      by (cases segs) auto
    with False s show ?thesis by simp
  qed
qed

lemma Split_no_sep: "seg \<in> set (Split v sep) \<Longrightarrow> sep \<notin> set seg"
  by (induction v arbitrary: seg) (auto split: list.splits if_splits)

lemma length_Split: "length (Split v sep) = Suc (count_list v sep)"
  by (induction v) (auto split: list.splits)

text \<open>
  C10. \<open>Set\<close> returns nil for every input. \<open>Set("")\<close> leaves the slice as it is. For a
  non-empty \<open>v\<close> the new slice is the old one followed by the comma-separated segments
  of \<open>v\<close>: they hold no comma, joined by commas they give \<open>v\<close> back, and there is one
  more of them than \<open>v\<close> has commas. Earlier values stay in front, so repeated
  occurrences of the flag accumulate.
\<close>

theorem Set_returns_nil_and_appends:
  "fst (Set s v) = None \<and>
   snd (Set s []) = s \<and>
   (v \<noteq> [] \<longrightarrow>
      snd (Set s v) = s @ Split v CHR '','' \<and>
      Join (Split v CHR '','') CHR '','' = v \<and>
      (\<forall>seg \<in> set (Split v CHR '',''). CHR '','' \<notin> set seg) \<and>
      length (snd (Set s v)) = length s + Suc (count_list v CHR '',''))"
  by (simp add: Set_def Join_Split Split_no_sep length_Split)

theorem Set_returns_nil_and_appends_witness:
  "''s3,dynamodb'' \<noteq> [] \<and> fst (Set [''ecs''] ''s3,dynamodb'') = None \<and>
   snd (Set [''ecs''] ''s3,dynamodb'') = [''ecs'', ''s3'', ''dynamodb'']"
  using Set_returns_nil_and_appends[of "[''ecs'']" "''s3,dynamodb''"] by simp

subsection \<open>The shared map of hasPaginationTokenField\<close>

lemma hasSpecificField_seen_mono:
  "seen \<subseteq> snd (hasSpecificField S t0 fieldName seen)"
  using hasSpecificField_seen_mono_dom(1) hasSpecificField_total by blast

lemma hasSpecificField_embedded_seen_mono:
  "seen \<subseteq> snd (hasSpecificField_embedded S fs fieldName seen)"
  using hasSpecificField_seen_mono_dom(2) hasSpecificField_total by blast

lemma hasSpecificField_marks:
  "Elem S t \<in> snd (hasSpecificField S t fieldName seen)"
  using hasSpecificField_embedded_seen_mono[of "insert (Elem S t) seen" S _ fieldName]
  by (auto simp: hasSpecificField.simps Let_def split: gotype.splits)

lemma hasSpecificField_seen:
  "Elem S t \<in> seen \<Longrightarrow> hasSpecificField S t fieldName seen = (False, seen)"
  by (simp add: hasSpecificField.simps)

lemma hasPaginationTokenField_fields_seen:
  "Elem S t \<in> seen \<Longrightarrow> hasPaginationTokenField_fields S t fs seen = (None, seen)"
  by (induction fs) (simp_all add: hasSpecificField_seen)

lemma hasPaginationTokenFieldRecursive_seen:
  "Elem S t \<in> seen \<Longrightarrow> hasPaginationTokenFieldRecursive cfg S t seen = ('''', seen)"
  by (simp add: hasPaginationTokenFieldRecursive.simps)

text \<open>
  For a service with registered fields, the first call of \<open>hasSpecificField\<close> puts the
  type into the one map that all later checks of \<open>hasPaginationTokenField\<close> share. So
  only the first registered field is ever looked for, and the default list never.
\<close>

lemma hasPaginationTokenField_known_service:
  assumes "svc \<noteq> ''''"
    and "apiSpecificPaginationFields (ToLower svc) = Some (f # fs)"
  shows "hasPaginationTokenField cfg S t svc =
           (if fst (hasSpecificField S t f {}) then f else '''')"
proof -
  obtain b seen1 where r: "hasSpecificField S t f {} = (b, seen1)"
    by (cases "hasSpecificField S t f {}")
  have m: "Elem S t \<in> seen1"
    using hasSpecificField_marks[of S t f "{}"] r by simp
  show ?thesis
    using assms r m
    by (cases b)
       (simp_all add: hasPaginationTokenField_def hasPaginationTokenField_fields_seen
            hasPaginationTokenFieldRecursive_seen)
qed

lemma ToLower_dynamodb: "ToLower ''dynamodb'' = ''dynamodb''"
  by (simp add: ToLower_def toLowerChar_def)

text \<open>
  C1. The claim is that every presence check in \<open>hasPaginationTokenField\<close> works on a
  visited set of its own, so that for a known service none of whose fields is present
  the result is that of \<open>hasPaginationTokenFieldRecursive\<close> on a fresh set. The code
  passes one map to all checks. For \<open>*dynamodb.ListExportsOutput\<close>, which has
  \<open>NextToken\<close> and no \<open>LastEvaluatedKey\<close>, with the service name \<open>dynamodb\<close>:
  the service is registered, its field is absent, the check on a fresh map finds
  \<open>NextToken\<close>, and \<open>hasPaginationTokenField\<close> returns the empty string.
\<close>

theorem hasPaginationTokenField_shared_seen_misses_default_field:
  "apiSpecificPaginationFields (ToLower ''dynamodb'') = Some [''LastEvaluatedKey''] \<and>
   \<not> fst (hasSpecificField exportsStore 0 ''LastEvaluatedKey'' {}) \<and>
   fst (hasPaginationTokenFieldRecursive defaultConfig exportsStore 0 {}) = ''NextToken'' \<and>
   hasPaginationTokenField defaultConfig exportsStore 0 ''dynamodb'' = ''''"
  by (simp add: ToLower_dynamodb apiSpecificPaginationFields_def hasPaginationTokenField_def
      exportsStore_def defaultConfig_def Elem_def typeAt_def Underlying_def Let_def
      getPaginationTokenFields_def defaultPaginationTokenFields_def
      hasSpecificField.simps hasPaginationTokenFieldRecursive.simps)

subsection \<open>Depth-first search\<close>

lemma explored_refl: "explored R T seen seen"
  by (simp add: explored_def)

lemma explored_trans:
  "explored R T a b \<Longrightarrow> explored R T b c \<Longrightarrow> explored R T a c"
  unfolding explored_def by blast

lemma explored_closed:
  assumes "explored R T {} seen'" and "s \<in> seen'" and "(s, u) \<in> R\<^sup>*"
  shows "u \<in> seen' \<and> \<not> T u"
proof -
  from assms(3,2) have "u \<in> seen'"
  proof (induction rule: rtrancl_induct)
    case base
    then show ?case .
  next
    case (step y z)
    with assms(1) show ?case unfolding explored_def by blast
  qed
  with assms(1) show ?thesis unfolding explored_def by blast
qed

subsection \<open>Direct fields before embedded ones\<close>

lemma findDirectField_None:
  "findDirectField st cands = None \<longleftrightarrow> (\<forall>c \<in> set cands. c \<notin> Name ` set st)"
  by (induction cands) (auto simp: list_ex_iff)

lemma findDirectField_Some:
  "findDirectField st cands = Some r \<Longrightarrow>
     r \<in> Name ` set st \<and>
     (\<exists>pre post. cands = pre @ r # post \<and> (\<forall>c \<in> set pre. c \<notin> Name ` set st))"
proof (induction cands)
  case Nil
  then show ?case by simp
next
  case (Cons c cands)
  show ?case
  proof (cases "list_ex (\<lambda>field. Name field = c) st")
    case True
    with Cons.prems have "r = c" by simp
    moreover from True have "c \<in> Name ` set st" by (auto simp: list_ex_iff)
    ultimately show ?thesis by (intro conjI exI[of _ "[]"] exI[of _ cands]) auto
  next
    case False
    with Cons.prems have "findDirectField st cands = Some r" by simp
    from Cons.IH[OF this] obtain pre post where
      r: "r \<in> Name ` set st" and c: "cands = pre @ r # post"
      and p: "\<forall>c \<in> set pre. c \<notin> Name ` set st" by blast
    from False have "c \<notin> Name ` set st" by (auto simp: list_ex_iff)
    with c p have "c # cands = (c # pre) @ r # post \<and> (\<forall>c' \<in> set (c # pre). c' \<notin> Name ` set st)"
      by simp
    with r show ?thesis by blast
  qed
qed

text \<open>
  C3. Let \<open>t\<close> be a struct type (behind at most one pointer and a type name) that the
  traversal has not seen, with a direct field named by some candidate. Then
  \<open>hasPaginationTokenFieldRecursive\<close> returns the name of a direct field, whatever the
  embedded members hold and wherever their candidates stand in the list; and among the
  candidates that name a direct field it returns the one that comes first in the
  candidate list. The result depends on the set of the direct field names only, not
  on the order the fields are declared in.
\<close>

theorem direct_field_outranks_embedded:
  assumes "Elem S t \<notin> seen"
    and "Underlying S (Elem S t) = Struct st"
    and "c \<in> set (getPaginationTokenFields cfg)"
    and "c \<in> Name ` set st"
  shows "\<exists>r pre post.
           fst (hasPaginationTokenFieldRecursive cfg S t seen) = r \<and>
           r \<in> Name ` set st \<and>
           getPaginationTokenFields cfg = pre @ r # post \<and>
           (\<forall>c' \<in> set pre. c' \<notin> Name ` set st)"
proof -
  from assms(3,4) have "findDirectField st (getPaginationTokenFields cfg) \<noteq> None"
    by (auto simp: findDirectField_None)
  then obtain r where r: "findDirectField st (getPaginationTokenFields cfg) = Some r"
    by blast
  with assms(1,2) have "fst (hasPaginationTokenFieldRecursive cfg S t seen) = r"
    by (simp add: hasPaginationTokenFieldRecursive.simps)
  with findDirectField_Some[OF r] show ?thesis by blast
qed

theorem direct_field_outranks_embedded_witness:
  "Elem wrappedStore 0 \<notin> {} \<and>
   Underlying wrappedStore (Elem wrappedStore 0) =
      Struct [\<lparr>Name = ''Inner'', Type = 2, Embedded = True\<rparr>,
              \<lparr>Name = ''Marker'', Type = 5, Embedded = False\<rparr>] \<and>
   ''Marker'' \<in> set (getPaginationTokenFields defaultConfig) \<and>
   fst (hasPaginationTokenFieldRecursive defaultConfig wrappedStore 0 {}) = ''Marker'' \<and>
   fst (hasPaginationTokenFieldRecursive defaultConfig wrappedStore 2 {}) = ''NextToken''"
proof -
  have u: "Underlying wrappedStore (Elem wrappedStore 0) =
      Struct [\<lparr>Name = ''Inner'', Type = 2, Embedded = True\<rparr>,
              \<lparr>Name = ''Marker'', Type = 5, Embedded = False\<rparr>]"
    by (simp add: wrappedStore_def Elem_def Underlying_def typeAt_def)
  have c: "''Marker'' \<in> set (getPaginationTokenFields defaultConfig)"
    by (simp add: getPaginationTokenFields_def defaultPaginationTokenFields_def)
  have e: "Elem wrappedStore 0 \<notin> {}" by simp
  have n: "''Marker'' \<in> Name ` set [\<lparr>Name = ''Inner'', Type = 2, Embedded = True\<rparr>,
              \<lparr>Name = ''Marker'', Type = 5, Embedded = False\<rparr>]" by simp
  have i: "fst (hasPaginationTokenFieldRecursive defaultConfig wrappedStore 2 {}) = ''NextToken''"
    by (simp add: wrappedStore_def defaultConfig_def Elem_def typeAt_def Underlying_def Let_def
      getPaginationTokenFields_def defaultPaginationTokenFields_def
      hasPaginationTokenFieldRecursive.simps)
  have d: "fst (hasPaginationTokenFieldRecursive defaultConfig wrappedStore 0 {}) = ''Marker''"
    by (simp add: wrappedStore_def defaultConfig_def Elem_def typeAt_def Underlying_def Let_def
      getPaginationTokenFields_def defaultPaginationTokenFields_def
      hasPaginationTokenFieldRecursive.simps)
  from direct_field_outranks_embedded[OF e u c n] e u c i d show ?thesis by simp
qed

subsection \<open>Termination and cycles\<close>

lemma hasPaginationTokenFieldRecursive_seen_mono:
  "seen \<subseteq> snd (hasPaginationTokenFieldRecursive cfg S t0 seen)"
  using hasPaginationTokenFieldRecursive_seen_mono_dom(1) hasPaginationTokenFieldRecursive_total
  by blast

lemma isAWSSDKTypeRecursive_seen_mono:
  "seen \<subseteq> snd (isAWSSDKTypeRecursive S t0 seen)"
  using isAWSSDKTypeRecursive_seen_mono_dom(1) isAWSSDKTypeRecursive_total by blast

lemma isAWSSDKTypeRecursive_fields_seen_mono:
  "seen \<subseteq> snd (isAWSSDKTypeRecursive_fields S fs seen)"
  using isAWSSDKTypeRecursive_seen_mono_dom(2) isAWSSDKTypeRecursive_total by blast











subsection \<open>The iterator pattern\<close>

lemma inspectStep_flags:
  "inspectStep varName tokenFields flags n =
     (fst flags \<or> isTokenAccessNode varName tokenFields n, snd flags \<or> isPaginatorCall n)"
  by (auto simp: inspectStep_def isPaginatorCall_def isTokenAccessNode_def Let_def
      split: node.splits)

lemma foldl_inspectStep:
  "foldl (inspectStep varName tokenFields) flags ns =
     (fst flags \<or> (\<exists>n \<in> set ns. isTokenAccessNode varName tokenFields n),
      snd flags \<or> (\<exists>n \<in> set ns. isPaginatorCall n))"
proof (induction ns arbitrary: flags)
  case Nil
  then show ?case by simp
next
  case (Cons n ns)
  have "foldl (inspectStep varName tokenFields) flags (n # ns) =
        foldl (inspectStep varName tokenFields) (inspectStep varName tokenFields flags n) ns"
    by simp
  also have "\<dots> =
     (fst (inspectStep varName tokenFields flags n)
        \<or> (\<exists>n \<in> set ns. isTokenAccessNode varName tokenFields n),
      snd (inspectStep varName tokenFields flags n) \<or> (\<exists>n \<in> set ns. isPaginatorCall n))"
    by (rule Cons.IH)
  also have "\<dots> =
     (fst flags \<or> (\<exists>m \<in> set (n # ns). isTokenAccessNode varName tokenFields m),
      snd flags \<or> (\<exists>m \<in> set (n # ns). isPaginatorCall m))"
    unfolding inspectStep_flags by auto
  finally show ?case .
qed

lemma hasPaginationHandling_iff:
  "hasPaginationHandling body varName tokenFields \<longleftrightarrow>
     (\<exists>n \<in> set (inspectNodes body). isTokenAccessNode varName tokenFields n) \<or>
     (\<exists>n \<in> set (inspectNodes body). isPaginatorCall n)"
  by (simp add: hasPaginationHandling_def foldl_inspectStep Let_def)

lemma isPaginatorName_iff:
  "isPaginatorName name \<longleftrightarrow>
     (\<exists>pre. pre \<noteq> [] \<and> name = pre @ ''Paginator'') \<or> name = ''HasMorePages'' \<or> name = ''NextPage''"
proof -
  have "(length name > 9 \<and> drop (length name - 9) name = ''Paginator'') \<longleftrightarrow>
        (\<exists>pre. pre \<noteq> [] \<and> name = pre @ ''Paginator'')"
  proof
    assume a: "length name > 9 \<and> drop (length name - 9) name = ''Paginator''"
    then have "name = take (length name - 9) name @ ''Paginator''"
      by (metis append_take_drop_id)
    moreover from a have "take (length name - 9) name \<noteq> []" by auto
    ultimately show "\<exists>pre. pre \<noteq> [] \<and> name = pre @ ''Paginator''" by blast
  next
    assume "\<exists>pre. pre \<noteq> [] \<and> name = pre @ ''Paginator''"
    then obtain pre where "pre \<noteq> []" "name = pre @ ''Paginator''" by blast
    then show "length name > 9 \<and> drop (length name - 9) name = ''Paginator''"
      by (cases pre) auto
  qed
  then show ?thesis by (simp add: isPaginatorName_def)
qed

text \<open>
  C5, as amended. Whenever the body contains a call of a selector whose name is a
  non-empty prefix followed by \<open>Paginator\<close> (the name is longer than nine bytes and ends
  with the suffix), or is exactly \<open>HasMorePages\<close> or \<open>NextPage\<close>,
  \<open>hasPaginationHandling\<close> returns true, for every variable name and every list of
  token fields: the variable need not occur in the body.
\<close>

theorem paginator_call_counts_as_handling:
  assumes "CallExpr c (SelectorExpr x name) args \<in> set (inspectNodes body)"
    and "(\<exists>pre. pre \<noteq> [] \<and> name = pre @ ''Paginator'')
         \<or> name = ''HasMorePages'' \<or> name = ''NextPage''"
  shows "hasPaginationHandling body varName tokenFields"
proof -
  from assms(2) have "isPaginatorCall (CallExpr c (SelectorExpr x name) args)"
    by (simp add: isPaginatorCall_def isPaginatorName_iff)
  with assms(1) show ?thesis
    unfolding hasPaginationHandling_iff by blast
qed

theorem paginator_call_counts_as_handling_witness:
  "CallExpr 0 (SelectorExpr (Ident ''ecs'') ''NewListTasksPaginator'')
       [Ident ''client'', Ident ''input''] \<in> set (inspectNodes newPaginatorBody) \<and>
   ''NewListTasksPaginator'' = ''NewListTasks'' @ ''Paginator'' \<and>
   hasPaginationHandling newPaginatorBody ''result'' [''NextToken'']"
proof -
  have m: "CallExpr 0 (SelectorExpr (Ident ''ecs'') ''NewListTasksPaginator'')
       [Ident ''client'', Ident ''input''] \<in> set (inspectNodes newPaginatorBody)"
    by (simp add: newPaginatorBody_def)
  have s: "(\<exists>pre. pre \<noteq> [] \<and> ''NewListTasksPaginator'' = pre @ ''Paginator'')
         \<or> ''NewListTasksPaginator'' = ''HasMorePages'' \<or> ''NewListTasksPaginator'' = ''NextPage''"
    by (intro disjI1 exI[of _ "''NewListTasks''"]) simp
  from paginator_call_counts_as_handling[OF m s] m show ?thesis by simp
qed

text \<open>
  The claim as stated counts every name that ends with the suffix. The name
  \<open>Paginator\<close> itself ends with it, and a body whose only call is \<open>client.Paginator()\<close>
  is not taken as handled: the source asks for \<open>len(name) > 9\<close>.
\<close>

theorem bare_Paginator_call_counterexample:
  "CallExpr 0 (SelectorExpr (Ident ''client'') ''Paginator'') [] \<in> set (inspectNodes paginatorBody) \<and>
   suffix ''Paginator'' ''Paginator'' \<and>
   \<not> hasPaginationHandling paginatorBody ''result'' [''NextToken'']"
  by (simp add: paginatorBody_def hasPaginationHandling_def inspectStep_def isPaginatorName_def
      Let_def)

subsection \<open>The message\<close>







text \<open>The message of the repository's test for Route53, with its list of four fields.\<close>

lemma buildErrorMessage_route53:
  "buildErrorMessage
     [''IsTruncated'', ''NextRecordName'', ''NextRecordType'', ''NextRecordIdentifier'']
     ''result''
     \<lparr>methodName = ''ListResourceRecordSets'', serviceName = ''route53'',
      typeName = ''ListResourceRecordSetsOutput''\<rparr> =
   ''missing pagination handling for AWS SDK List API call''
   @ '' (result has IsTruncated, NextRecordName, NextRecordType, and NextRecordIdentifier fields)''
   @ [LF]
   @ ''When there are many results, only the first page is returned. ''
   @ ''Use NewListResourceRecordSetsPaginator or loop with ''
   @ ''result.IsTruncated (or other pagination fields).''"
  by (simp add: buildErrorMessage_def)





subsection \<open>Assignments without a variable\<close>

lemma map_filter_skip:
  "\<forall>x \<in> set xs. \<not> P x \<longrightarrow> f x = None \<Longrightarrow>
     List.map_filter f xs = List.map_filter f (filter P xs)"
  by (induction xs) (auto split: option.splits)

lemma checkAssignment_skip:
  assumes "i < length rhs" and "checkRhs pass lhs body i (rhs ! i) = None"
  shows "checkAssignment pass lhs rhs body =
           List.map_filter (\<lambda>(j, r). checkRhs pass lhs body j r)
             (filter (\<lambda>(j, r). j \<noteq> i) (enumerate 0 rhs))"
  unfolding checkAssignment_def
proof (rule map_filter_skip, intro ballI impI)
  fix x assume x: "x \<in> set (enumerate 0 rhs)" and n: "\<not> (case x of (j, r) \<Rightarrow> j \<noteq> i)"
  obtain j r where jr: "x = (j, r)" by (cases x)
  with n have "j = i" by simp
  moreover from x jr have "r = rhs ! j" by (simp add: in_set_enumerate_eq)
  ultimately show "(case x of (j, r) \<Rightarrow> checkRhs pass lhs body j r) = None"
    using assms(2) jr by simp
qed

lemma checkRhs_no_variable:
  "extractVariableName (lhs ! i) = '''' \<Longrightarrow> checkRhs pass lhs body i r = None"
  by (auto simp: checkRhs_def Let_def split: node.splits option.splits)

text \<open>
  C8. When the target at the position of a call expression is the blank identifier,
  the loop body of \<open>checkAssignment\<close> reports nothing for that call, whatever the type of
  the call's result, its provenance and the function body are; so the diagnostics of
  the statement are those of its other right-hand sides.
\<close>

theorem blank_identifier_suppresses_diagnostic:
  assumes "i < length rhs"
    and "rhs ! i = CallExpr c fn args"
    and "i < length lhs"
    and "lhs ! i = Ident ''_''"
  shows "checkRhs pass lhs body i (rhs ! i) = None \<and>
         checkAssignment pass lhs rhs body =
           List.map_filter (\<lambda>(j, r). checkRhs pass lhs body j r)
             (filter (\<lambda>(j, r). j \<noteq> i) (enumerate 0 rhs))"
proof -
  from assms(4) have "extractVariableName (lhs ! i) = ''''"
    by (simp add: extractVariableName_def)
  then have "checkRhs pass lhs body i (rhs ! i) = None"
    by (rule checkRhs_no_variable)
  with checkAssignment_skip[OF assms(1) this] show ?thesis by simp
qed

text \<open>
  C9. When the target at a position is no identifier (a selector, an index expression,
  ...), \<open>extractVariableName\<close> returns the empty string and the loop body of
  \<open>checkAssignment\<close> reports nothing for that position, as for the blank identifier.
\<close>

theorem non_identifier_target_suppresses_diagnostic:
  assumes "i < length rhs"
    and "i < length lhs"
    and "\<forall>name. lhs ! i \<noteq> Ident name"
  shows "extractVariableName (lhs ! i) = '''' \<and>
         checkRhs pass lhs body i (rhs ! i) = None \<and>
         checkAssignment pass lhs rhs body =
           List.map_filter (\<lambda>(j, r). checkRhs pass lhs body j r)
             (filter (\<lambda>(j, r). j \<noteq> i) (enumerate 0 rhs))"
proof -
  from assms(3) have e: "extractVariableName (lhs ! i) = ''''"
    by (cases "lhs ! i") (simp_all add: extractVariableName_def)
  then have "checkRhs pass lhs body i (rhs ! i) = None"
    by (rule checkRhs_no_variable)
  with checkAssignment_skip[OF assms(1) this] e show ?thesis by simp
qed

lemma listTasks_types:
  "hasPaginationTokenField defaultConfig listTasksStore (Suc 0) ''ecs'' = ''NextToken''"
  "isAWSSDKType listTasksStore (Suc 0)"
  "getAllPaginationTokenFields defaultConfig listTasksStore (Suc 0) ''ecs'' = [''NextToken'']"
  "extractResultType listTasksPass 7 = Some (Suc 0)"
  "extractAPICallInfo listTasksStore (SelectorExpr (Ident ''client'') ''ListTasks'') (Suc 0) =
     \<lparr>methodName = ''ListTasks'', serviceName = ''ecs'', typeName = ''ListTasksOutput''\<rparr>"
      apply (simp add: hasPaginationTokenField_def apiSpecificPaginationFields_def ToLower_def
        toLowerChar_def hasPaginationTokenFieldRecursive.simps Elem_def Underlying_def typeAt_def
        listTasksStore_def getPaginationTokenFields_def defaultPaginationTokenFields_def
        defaultConfig_def Let_def)
     apply (simp add: isAWSSDKType_def isAWSSDKTypeRecursive.simps namedInAWSSDKPackage_def
        isAWSSDKPackage_def Contains_def Elem_def typeAt_def listTasksStore_def Let_def)
    apply (simp add: getAllPaginationTokenFields_def apiSpecificPaginationFields_def ToLower_def
        toLowerChar_def hasPaginationTokenFieldRecursive.simps Elem_def Underlying_def typeAt_def
        listTasksStore_def getPaginationTokenFields_def defaultPaginationTokenFields_def
        defaultConfig_def Let_def)
   apply (simp add: extractResultType_def listTasksPass_def listTasksStore_def typeAt_def)
  apply (simp add: extractAPICallInfo_def Elem_def typeAt_def listTasksStore_def
      extractServiceNameFromPackage_def Let_def)
  done


lemma hasPaginationHandling_unhandledBody:
  "hasPaginationHandling (unhandledBody (Ident ''result'')) ''result'' [''NextToken''] = False"
  by (simp add: unhandledBody_def listTasksCall_def hasPaginationHandling_def inspectStep_def
      isPaginatorName_def Let_def)

lemma named_target_is_reported:
  "checkAssignment listTasksPass [Ident ''result'', Ident ''err''] [listTasksCall]
     (unhandledBody (Ident ''result'')) =
   [\<lparr>Pos = 7, Message = buildErrorMessage [''NextToken''] ''result'' listTasksInfo\<rparr>]"
proof -
  have u: "Universe listTasksPass = listTasksStore" and c: "Cfg listTasksPass = defaultConfig"
    by (simp_all add: listTasksPass_def)
  have "checkRhs listTasksPass [Ident ''result'', Ident ''err'']
          (unhandledBody (Ident ''result'')) 0 listTasksCall =
        Some \<lparr>Pos = 7, Message = buildErrorMessage [''NextToken''] ''result'' listTasksInfo\<rparr>"
    by (simp add: checkRhs_def listTasksCall_def[of] u c listTasks_types
        extractVariableName_def hasPaginationHandling_unhandledBody listTasksInfo_def Let_def)
  then show ?thesis
    by (simp add: checkAssignment_def enumerate_eq_zip)
qed

theorem blank_identifier_suppresses_diagnostic_witness:
  "(0::nat) < length [listTasksCall] \<and>
   [listTasksCall] ! 0 =
     CallExpr 7 (SelectorExpr (Ident ''client'') ''ListTasks'') [Ident ''ctx'', Ident ''input''] \<and>
   (0::nat) < length [Ident ''_'', Ident ''err''] \<and>
   [Ident ''_'', Ident ''err''] ! 0 = Ident ''_'' \<and>
   checkAssignment listTasksPass [Ident ''_'', Ident ''err''] [listTasksCall]
     (unhandledBody (Ident ''_'')) = [] \<and>
   checkAssignment listTasksPass [Ident ''result'', Ident ''err''] [listTasksCall]
     (unhandledBody (Ident ''result'')) =
   [\<lparr>Pos = 7, Message = buildErrorMessage [''NextToken''] ''result'' listTasksInfo\<rparr>]"
proof -
  have a: "(0::nat) < length [listTasksCall]" by simp
  have b: "[listTasksCall] ! 0 =
     CallExpr 7 (SelectorExpr (Ident ''client'') ''ListTasks'') [Ident ''ctx'', Ident ''input'']"
    by (simp add: listTasksCall_def)
  have c: "(0::nat) < length [Ident ''_'', Ident ''err'']" by simp
  have d: "[Ident ''_'', Ident ''err''] ! 0 = Ident ''_''" by simp
  from blank_identifier_suppresses_diagnostic[OF a b c d,
      of listTasksPass "unhandledBody (Ident ''_'')"]
  have e: "checkAssignment listTasksPass [Ident ''_'', Ident ''err''] [listTasksCall]
     (unhandledBody (Ident ''_'')) = []"
    by (simp add: enumerate_eq_zip)
  show ?thesis
    using a b c d e named_target_is_reported by (intro conjI)
qed

theorem non_identifier_target_suppresses_diagnostic_witness:
  "(0::nat) < length [listTasksCall] \<and>
   (0::nat) < length [SelectorExpr (Ident ''s'') ''out'', Ident ''err''] \<and>
   extractVariableName ([SelectorExpr (Ident ''s'') ''out'', Ident ''err''] ! 0) = '''' \<and>
   checkAssignment listTasksPass [SelectorExpr (Ident ''s'') ''out'', Ident ''err'']
     [listTasksCall] (unhandledBody (SelectorExpr (Ident ''s'') ''out'')) = []"
proof -
  have a: "(0::nat) < length [listTasksCall]" by simp
  have c: "(0::nat) < length [SelectorExpr (Ident ''s'') ''out'', Ident ''err'']" by simp
  have d: "\<forall>name. [SelectorExpr (Ident ''s'') ''out'', Ident ''err''] ! 0 \<noteq> Ident name" by simp
  note t = non_identifier_target_suppresses_diagnostic[OF a c d,
      of listTasksPass "unhandledBody (SelectorExpr (Ident ''s'') ''out'')"]
  from t have v: "extractVariableName ([SelectorExpr (Ident ''s'') ''out'', Ident ''err''] ! 0) = ''''"
    by (rule conjunct1)
  from t have e: "checkAssignment listTasksPass [SelectorExpr (Ident ''s'') ''out'', Ident ''err'']
     [listTasksCall] (unhandledBody (SelectorExpr (Ident ''s'') ''out'')) = []"
    by (simp add: enumerate_eq_zip)
  show ?thesis
    using a c v e by (intro conjI)
qed

subsection \<open>Provenance\<close>

lemma isAWSSDKTypeRecursive_seen:
  "Elem S t0 \<in> seen \<Longrightarrow> isAWSSDKTypeRecursive S t0 seen = (False, seen)"
  by (simp add: isAWSSDKTypeRecursive.simps)

lemma isAWSSDKTypeRecursive_named:
  "Elem S t0 \<notin> seen \<Longrightarrow> namedInAWSSDKPackage S (Elem S t0) \<Longrightarrow>
     isAWSSDKTypeRecursive S t0 seen = (True, insert (Elem S t0) seen)"
  by (simp add: isAWSSDKTypeRecursive.simps)

lemma isAWSSDKTypeRecursive_struct:
  "Elem S t0 \<notin> seen \<Longrightarrow> \<not> namedInAWSSDKPackage S (Elem S t0) \<Longrightarrow>
   Underlying S (Elem S t0) = Struct st \<Longrightarrow>
     isAWSSDKTypeRecursive S t0 seen =
       isAWSSDKTypeRecursive_fields S st (insert (Elem S t0) seen)"
  by (simp add: isAWSSDKTypeRecursive.simps)

lemma isAWSSDKTypeRecursive_other:
  "Elem S t0 \<notin> seen \<Longrightarrow> \<not> namedInAWSSDKPackage S (Elem S t0) \<Longrightarrow>
   \<forall>st. Underlying S (Elem S t0) \<noteq> Struct st \<Longrightarrow>
     isAWSSDKTypeRecursive S t0 seen = (False, insert (Elem S t0) seen)"
  by (simp add: isAWSSDKTypeRecursive.simps Let_def split: gotype.splits)

lemma fieldStep_iff:
  "Underlying S u = Struct st \<Longrightarrow> (u, v) \<in> fieldStep S \<longleftrightarrow> (\<exists>f \<in> set st. v = Elem S (Type f))"
  by (auto simp: fieldStep_def)

lemma fieldStep_none:
  "\<forall>st. Underlying S u \<noteq> Struct st \<Longrightarrow> (u, v) \<notin> fieldStep S"
  by (auto simp: fieldStep_def)

lemma isAWSSDKTypeRecursive_sound:
  "fst (isAWSSDKTypeRecursive S t0 seen) \<Longrightarrow>
     \<exists>u. (Elem S t0, u) \<in> (fieldStep S)\<^sup>* \<and> namedInAWSSDKPackage S u"
  "fst (isAWSSDKTypeRecursive_fields S fs seen) \<Longrightarrow>
     \<exists>f \<in> set fs. \<exists>u. (Elem S (Type f), u) \<in> (fieldStep S)\<^sup>* \<and> namedInAWSSDKPackage S u"
proof (induction S t0 seen and S fs seen
    rule: isAWSSDKTypeRecursive_isAWSSDKTypeRecursive_fields.induct)
  case (1 S t0 seen)
  let ?t = "Elem S t0"
  show ?case
  proof (cases "?t \<in> seen")
    case True
    with 1(2) show ?thesis by (simp add: isAWSSDKTypeRecursive_seen)
  next
    case unseen: False
    show ?thesis
    proof (cases "namedInAWSSDKPackage S ?t")
      case True
      then show ?thesis by blast
    next
      case untrusted: False
      show ?thesis
      proof (cases "\<exists>st. Underlying S ?t = Struct st")
        case True
        then obtain st where st: "Underlying S ?t = Struct st" by blast
        with 1(2) unseen untrusted
        have "fst (isAWSSDKTypeRecursive_fields S st (insert ?t seen))"
          by (simp add: isAWSSDKTypeRecursive_struct)
        from 1(1)[OF refl unseen refl untrusted st this]
        obtain f u where f: "f \<in> set st"
          and u: "(Elem S (Type f), u) \<in> (fieldStep S)\<^sup>*" "namedInAWSSDKPackage S u"
          by blast
        from st f have "(?t, Elem S (Type f)) \<in> fieldStep S"
          by (auto simp: fieldStep_iff)
        with u show ?thesis by (meson converse_rtrancl_into_rtrancl)
      next
        case False
        with 1(2) unseen untrusted show ?thesis
          by (simp add: isAWSSDKTypeRecursive_other)
      qed
    qed
  qed
next
  case (2 S seen)
  then show ?case by simp
next
  case (3 S field rest seen)
  obtain b y where r: "isAWSSDKTypeRecursive S (Type field) seen = (b, y)"
    by (cases "isAWSSDKTypeRecursive S (Type field) seen")
  show ?case
  proof (cases b)
    case True
    with r 3(1) show ?thesis by simp
  next
    case False
    then have "b = False" by simp
    from False r 3(3) have "fst (isAWSSDKTypeRecursive_fields S rest y)" by simp
    from 3(2)[OF r[symmetric] \<open>b = False\<close> this] show ?thesis by auto
  qed
qed

lemma isAWSSDKTypeRecursive_complete:
  "isAWSSDKTypeRecursive S t0 seen = (False, seen') \<Longrightarrow>
     Elem S t0 \<in> seen' \<and> explored (fieldStep S) (namedInAWSSDKPackage S) seen seen'"
  "isAWSSDKTypeRecursive_fields S fs seen = (False, seen') \<Longrightarrow>
     (\<forall>f \<in> set fs. Elem S (Type f) \<in> seen') \<and>
     explored (fieldStep S) (namedInAWSSDKPackage S) seen seen'"
proof (induction S t0 seen and S fs seen arbitrary: seen' and seen'
    rule: isAWSSDKTypeRecursive_isAWSSDKTypeRecursive_fields.induct)
  case (1 S t0 seen)
  let ?t = "Elem S t0"
  show ?case
  proof (cases "?t \<in> seen")
    case True
    with 1(2) show ?thesis by (simp add: isAWSSDKTypeRecursive_seen explored_refl)
  next
    case unseen: False
    show ?thesis
    proof (cases "namedInAWSSDKPackage S ?t")
      case True
      with 1(2) unseen show ?thesis by (simp add: isAWSSDKTypeRecursive_named)
    next
      case untrusted: False
      show ?thesis
      proof (cases "\<exists>st. Underlying S ?t = Struct st")
        case True
        then obtain st where st: "Underlying S ?t = Struct st" by blast
        with 1(2) unseen untrusted
        have "isAWSSDKTypeRecursive_fields S st (insert ?t seen) = (False, seen')"
          by (simp add: isAWSSDKTypeRecursive_struct)
        from 1(1)[OF refl unseen refl untrusted st this]
        have fs: "\<forall>f \<in> set st. Elem S (Type f) \<in> seen'"
          and ex: "explored (fieldStep S) (namedInAWSSDKPackage S) (insert ?t seen) seen'"
          by blast+
        from ex have t: "?t \<in> seen'" by (auto simp: explored_def)
        have "explored (fieldStep S) (namedInAWSSDKPackage S) seen seen'"
          unfolding explored_def
        proof (intro conjI ballI allI impI)
          show "seen \<subseteq> seen'" using ex by (auto simp: explored_def)
        next
          fix n assume "n \<in> seen' - seen"
          with ex untrusted show "\<not> namedInAWSSDKPackage S n"
            by (cases "n = ?t") (auto simp: explored_def)
        next
          fix n m assume n: "n \<in> seen' - seen" and m: "(n, m) \<in> fieldStep S"
          show "m \<in> seen'"
          proof (cases "n = ?t")
            case True
            with m st fs show ?thesis by (auto simp: fieldStep_iff)
          next
            case False
            with n m ex show ?thesis by (auto simp: explored_def)
          qed
        qed
        with t show ?thesis by simp
      next
        case False
        with 1(2) unseen untrusted have s: "seen' = insert ?t seen"
          by (simp add: isAWSSDKTypeRecursive_other)
        from False have "\<And>m. (?t, m) \<notin> fieldStep S" by (simp add: fieldStep_none)
        with s untrusted show ?thesis by (auto simp: explored_def)
      qed
    qed
  qed
next
  case (2 S seen)
  then show ?case by (simp add: explored_refl)
next
  case (3 S field rest seen)
  obtain b y where r: "isAWSSDKTypeRecursive S (Type field) seen = (b, y)"
    by (cases "isAWSSDKTypeRecursive S (Type field) seen")
  with 3(3) have b: "b = False" by (cases b) simp_all
  with r 3(3) have l: "isAWSSDKTypeRecursive_fields S rest y = (False, seen')" by simp
  from r b have r': "isAWSSDKTypeRecursive S (Type field) seen = (False, y)" by simp
  from 3(1)[OF r'] have f: "Elem S (Type field) \<in> y"
    and e1: "explored (fieldStep S) (namedInAWSSDKPackage S) seen y" by blast+
  from 3(2)[OF r[symmetric] b l] have fs: "\<forall>f \<in> set rest. Elem S (Type f) \<in> seen'"
    and e2: "explored (fieldStep S) (namedInAWSSDKPackage S) y seen'" by blast+
  from e2 f have "Elem S (Type field) \<in> seen'" by (auto simp: explored_def)
  with fs explored_trans[OF e1 e2] show ?case by simp
qed

lemma isAWSSDKType_iff_reachable:
  "isAWSSDKType S t \<longleftrightarrow>
     (\<exists>u. (Elem S t, u) \<in> (fieldStep S)\<^sup>* \<and> namedInAWSSDKPackage S u)"
proof
  assume "isAWSSDKType S t"
  then show "\<exists>u. (Elem S t, u) \<in> (fieldStep S)\<^sup>* \<and> namedInAWSSDKPackage S u"
    unfolding isAWSSDKType_def by (rule isAWSSDKTypeRecursive_sound(1))
next
  assume r: "\<exists>u. (Elem S t, u) \<in> (fieldStep S)\<^sup>* \<and> namedInAWSSDKPackage S u"
  show "isAWSSDKType S t"
  proof (rule ccontr)
    assume "\<not> isAWSSDKType S t"
    then obtain seen' where "isAWSSDKTypeRecursive S t {} = (False, seen')"
      unfolding isAWSSDKType_def by (cases "isAWSSDKTypeRecursive S t {}") auto
    from isAWSSDKTypeRecursive_complete(1)[OF this] explored_closed r
    show False by blast
  qed
qed


lemma Index_None_iff:
  "Index s sub \<noteq> None \<longleftrightarrow> (\<exists>pre post. s = pre @ sub @ post)"
proof (induction s)
  case Nil
  then show ?case by auto
next
  case (Cons c cs)
  show ?case
  proof
    assume "Index (c # cs) sub \<noteq> None"
    then consider "prefix sub (c # cs)" | "Index cs sub \<noteq> None"
      by (auto split: if_splits)
    then show "\<exists>pre post. c # cs = pre @ sub @ post"
    proof cases
      case 1
      then obtain post where "c # cs = sub @ post" by (auto simp: prefix_def)
      then have "c # cs = [] @ sub @ post" by simp
      then show ?thesis by blast
    next
      case 2
      with Cons.IH obtain pre post where "cs = pre @ sub @ post" by blast
      then have "c # cs = (c # pre) @ sub @ post" by simp
      then show ?thesis by blast
    qed
  next
    assume "\<exists>pre post. c # cs = pre @ sub @ post"
    then obtain pre post where e: "c # cs = pre @ sub @ post" by blast
    show "Index (c # cs) sub \<noteq> None"
    proof (cases pre)
      case Nil
      with e have "prefix sub (c # cs)" by (auto simp: prefix_def)
      then show ?thesis by simp
    next
      case (Cons p pre')
      with e have "cs = pre' @ sub @ post" by simp
      with Cons.IH have "Index cs sub \<noteq> None" by blast
      then show ?thesis by auto
    qed
  qed
qed

lemma isAWSSDKPackage_iff:
  "isAWSSDKPackage pkgPath \<longleftrightarrow> (\<exists>pre post. pkgPath = pre @ ''aws-sdk-go-v2/service/'' @ post)"
  unfolding isAWSSDKPackage_def Contains_def by (rule Index_None_iff)

lemma namedInAWSSDKPackage_iff:
  "namedInAWSSDKPackage S u \<longleftrightarrow>
     (\<exists>path name und. typeAt S u = Named (Some path) name und \<and> isAWSSDKPackage path)"
  by (auto simp: namedInAWSSDKPackage_def split: gotype.splits option.splits)

lemma Elem_typeStep: "(t, Elem S t) \<in> (typeStep S)\<^sup>*"
  by (auto simp: Elem_def typeStep_def split: gotype.splits)

lemma fieldStep_typeStep:
  assumes "(u, v) \<in> fieldStep S"
  shows "(u, v) \<in> (typeStep S)\<^sup>*"
proof -
  from assms obtain st f where st: "Underlying S u = Struct st" and f: "f \<in> set st"
    and v: "v = Elem S (Type f)" by (auto simp: fieldStep_def)
  have "(u, Type f) \<in> (typeStep S)\<^sup>*"
  proof (cases "typeAt S u")
    case (Named pkg name und)
    with st have "typeAt S und = Struct st" by (simp add: Underlying_def)
    with f have "(und, Type f) \<in> typeStep S" by (auto simp: typeStep_def)
    moreover from Named have "(u, und) \<in> typeStep S" by (auto simp: typeStep_def)
    ultimately show ?thesis by (meson r_into_rtrancl rtrancl_trans)
  next
    case (Struct st')
    with st f have "(u, Type f) \<in> typeStep S" by (auto simp: typeStep_def Underlying_def)
    then show ?thesis by blast
  qed (use st in \<open>simp_all add: Underlying_def\<close>)
  with Elem_typeStep[of "Type f" S] v show ?thesis by (meson rtrancl_trans)
qed

lemma fieldStep_rtrancl_typeStep:
  "(u, v) \<in> (fieldStep S)\<^sup>* \<Longrightarrow> (u, v) \<in> (typeStep S)\<^sup>*"
  by (induction rule: rtrancl_induct) (auto dest: fieldStep_typeStep)

text \<open>
  C6, as amended. \<open>isAWSSDKType(t)\<close> is true if and only if some type reachable from
  \<open>t\<close> is a named type declared in a package whose path contains the marker
  \<open>aws-sdk-go-v2/service/\<close> anywhere, where reaching means: unwrap one pointer level of
  \<open>t\<close> if there is one, then any number of times go from a struct type, or a named type
  whose underlying type is a struct, to the type of one of its fields (embedded or not)
  and unwrap one pointer level there. A true result always has a trusted type among
  the types reachable by the specification's steps taken freely. In particular a struct
  holding a trusted type (or a pointer to it) in a field that is not embedded is
  trusted, and the marker may stand anywhere in the path.
\<close>

theorem isAWSSDKType_iff_trusted_type_reachable:
  "(isAWSSDKType S t \<longleftrightarrow>
      (\<exists>u path name und pre post.
         (Elem S t, u) \<in> (fieldStep S)\<^sup>* \<and>
         typeAt S u = Named (Some path) name und \<and>
         path = pre @ ''aws-sdk-go-v2/service/'' @ post)) \<and>
   (isAWSSDKType S t \<longrightarrow>
      (\<exists>u. (t, u) \<in> (typeStep S)\<^sup>* \<and> namedInAWSSDKPackage S u)) \<and>
   (Underlying S (Elem S t) = Struct st \<and> f \<in> set st \<and>
    typeAt S (Elem S (Type f)) = Named (Some (pre' @ ''aws-sdk-go-v2/service/'' @ post')) name' und'
      \<longrightarrow> isAWSSDKType S t)"
proof (intro conjI impI)
  show "isAWSSDKType S t \<longleftrightarrow>
      (\<exists>u path name und pre post.
         (Elem S t, u) \<in> (fieldStep S)\<^sup>* \<and>
         typeAt S u = Named (Some path) name und \<and>
         path = pre @ ''aws-sdk-go-v2/service/'' @ post)"
    unfolding isAWSSDKType_iff_reachable namedInAWSSDKPackage_iff isAWSSDKPackage_iff
    by blast
next
  assume "isAWSSDKType S t"
  then obtain u where "(Elem S t, u) \<in> (fieldStep S)\<^sup>*" and n: "namedInAWSSDKPackage S u"
    unfolding isAWSSDKType_iff_reachable by blast
  then have "(Elem S t, u) \<in> (typeStep S)\<^sup>*" by (simp add: fieldStep_rtrancl_typeStep)
  with Elem_typeStep[of t S] have "(t, u) \<in> (typeStep S)\<^sup>*" by (meson rtrancl_trans)
  with n show "\<exists>u. (t, u) \<in> (typeStep S)\<^sup>* \<and> namedInAWSSDKPackage S u" by blast
next
  assume a: "Underlying S (Elem S t) = Struct st \<and> f \<in> set st \<and>
    typeAt S (Elem S (Type f)) = Named (Some (pre' @ ''aws-sdk-go-v2/service/'' @ post')) name' und'"
  then have "(Elem S t, Elem S (Type f)) \<in> fieldStep S" by (auto simp: fieldStep_def)
  moreover from a have "namedInAWSSDKPackage S (Elem S (Type f))"
    unfolding namedInAWSSDKPackage_iff isAWSSDKPackage_iff by blast
  ultimately show "isAWSSDKType S t"
    unfolding isAWSSDKType_iff_reachable by blast
qed

theorem isAWSSDKType_iff_trusted_type_reachable_witness:
  "Underlying wrapperStore (Elem wrapperStore 0) =
     Struct [\<lparr>Name = ''Count'', Type = 5, Embedded = False\<rparr>,
             \<lparr>Name = ''Output'', Type = 2, Embedded = False\<rparr>] \<and>
   typeAt wrapperStore (Elem wrapperStore 2) =
     Named (Some (''proxy.company.com/github.com/aws/'' @ ''aws-sdk-go-v2/service/'' @ ''ecs''))
       ''ListTasksOutput'' 4 \<and>
   isAWSSDKType wrapperStore 0"
proof -
  have u: "Underlying wrapperStore (Elem wrapperStore 0) =
     Struct [\<lparr>Name = ''Count'', Type = 5, Embedded = False\<rparr>,
             \<lparr>Name = ''Output'', Type = 2, Embedded = False\<rparr>]"
    by (simp add: wrapperStore_def Underlying_def Elem_def typeAt_def)
  have n: "typeAt wrapperStore (Elem wrapperStore 2) =
     Named (Some (''proxy.company.com/github.com/aws/'' @ ''aws-sdk-go-v2/service/'' @ ''ecs''))
       ''ListTasksOutput'' 4"
    by (simp add: wrapperStore_def Elem_def typeAt_def)
  have m: "\<lparr>Name = ''Output'', Type = 2, Embedded = False\<rparr>
      \<in> set [\<lparr>Name = ''Count'', Type = 5, Embedded = False\<rparr>,
              \<lparr>Name = ''Output'', Type = 2, Embedded = False\<rparr>]"
    by simp
  have n': "typeAt wrapperStore
        (Elem wrapperStore (Type \<lparr>Name = ''Output'', Type = 2, Embedded = False\<rparr>)) =
     Named (Some (''proxy.company.com/github.com/aws/'' @ ''aws-sdk-go-v2/service/'' @ ''ecs''))
       ''ListTasksOutput'' 4"
    using n by simp
  note t = isAWSSDKType_iff_trusted_type_reachable[of wrapperStore 0
      "[\<lparr>Name = ''Count'', Type = 5, Embedded = False\<rparr>,
        \<lparr>Name = ''Output'', Type = 2, Embedded = False\<rparr>]"
      "\<lparr>Name = ''Output'', Type = 2, Embedded = False\<rparr>"
      "''proxy.company.com/github.com/aws/''" "''ecs''" "''ListTasksOutput''" 4]
  have "isAWSSDKType wrapperStore 0"
    by (rule mp[OF t[THEN conjunct2, THEN conjunct2]]) (intro conjI u m n')
  with u n show ?thesis by (intro conjI)
qed

text \<open>
  The claim as stated lets the steps be taken freely. Through two pointers the trusted
  type \<open>s3.ListBucketsOutput\<close> is reachable from \<open>**s3.ListBucketsOutput\<close> by unwrapping
  pointers, and the check returns false: it unwraps one level only.
\<close>

theorem isAWSSDKType_double_pointer_counterexample:
  "(0, 2) \<in> (typeStep doublePointerStore)\<^sup>* \<and>
   namedInAWSSDKPackage doublePointerStore 2 \<and>
   \<not> isAWSSDKType doublePointerStore 0"
proof -
  have "(0, 1) \<in> typeStep doublePointerStore" "(1, 2) \<in> typeStep doublePointerStore"
    by (simp_all add: typeStep_def doublePointerStore_def typeAt_def)
  then have "(0, 2) \<in> (typeStep doublePointerStore)\<^sup>*"
    by (meson r_into_rtrancl rtrancl_trans)
  moreover have "namedInAWSSDKPackage doublePointerStore 2"
    by (simp add: namedInAWSSDKPackage_def doublePointerStore_def typeAt_def
        isAWSSDKPackage_def Contains_def)
  moreover have "\<not> isAWSSDKType doublePointerStore 0"
    by (simp add: isAWSSDKType_def isAWSSDKTypeRecursive.simps Elem_def typeAt_def
        doublePointerStore_def namedInAWSSDKPackage_def Underlying_def Let_def)
  ultimately show ?thesis by blast
qed

subsection \<open>Service-specific fields\<close>

lemma hasSpecificField_found:
  "Elem S t0 \<notin> seen \<Longrightarrow> declaresField S fieldName (Elem S t0) \<Longrightarrow>
     hasSpecificField S t0 fieldName seen = (True, insert (Elem S t0) seen)"
  by (auto simp: hasSpecificField.simps declaresField_def list_ex_iff Let_def)

lemma hasSpecificField_struct:
  "Elem S t0 \<notin> seen \<Longrightarrow> \<not> declaresField S fieldName (Elem S t0) \<Longrightarrow>
   Underlying S (Elem S t0) = Struct st \<Longrightarrow>
     hasSpecificField S t0 fieldName seen =
       hasSpecificField_embedded S st fieldName (insert (Elem S t0) seen)"
  by (auto simp: hasSpecificField.simps declaresField_def list_ex_iff Let_def)

lemma hasSpecificField_other:
  "Elem S t0 \<notin> seen \<Longrightarrow> \<forall>st. Underlying S (Elem S t0) \<noteq> Struct st \<Longrightarrow>
     hasSpecificField S t0 fieldName seen = (False, insert (Elem S t0) seen)"
  by (simp add: hasSpecificField.simps Let_def split: gotype.splits)

lemma declaresField_list_ex:
  "Underlying S u = Struct st \<Longrightarrow>
     declaresField S fieldName u \<longleftrightarrow> list_ex (\<lambda>field. Name field = fieldName) st"
  by (auto simp: declaresField_def list_ex_iff)

lemma embeddedStep_iff:
  "Underlying S u = Struct st \<Longrightarrow>
     (u, v) \<in> embeddedStep S \<longleftrightarrow> (\<exists>f \<in> set st. Embedded f \<and> v = Elem S (Type f))"
  by (auto simp: embeddedStep_def)

lemma embeddedStep_none:
  "\<forall>st. Underlying S u \<noteq> Struct st \<Longrightarrow> (u, v) \<notin> embeddedStep S"
  by (auto simp: embeddedStep_def)

lemma hasSpecificField_sound:
  "fst (hasSpecificField S t0 fieldName seen) \<Longrightarrow>
     \<exists>u. (Elem S t0, u) \<in> (embeddedStep S)\<^sup>* \<and> declaresField S fieldName u"
  "fst (hasSpecificField_embedded S fs fieldName seen) \<Longrightarrow>
     \<exists>f \<in> set fs. Embedded f \<and>
        (\<exists>u. (Elem S (Type f), u) \<in> (embeddedStep S)\<^sup>* \<and> declaresField S fieldName u)"
proof (induction S t0 fieldName seen and S fs fieldName seen
    rule: hasSpecificField_hasSpecificField_embedded.induct)
  case (1 S t0 fieldName seen)
  let ?t = "Elem S t0"
  show ?case
  proof (cases "?t \<in> seen")
    case True
    with 1(2) show ?thesis by (simp add: hasSpecificField_seen)
  next
    case unseen: False
    show ?thesis
    proof (cases "declaresField S fieldName ?t")
      case True
      then show ?thesis by blast
    next
      case absent: False
      show ?thesis
      proof (cases "\<exists>st. Underlying S ?t = Struct st")
        case True
        then obtain st where st: "Underlying S ?t = Struct st" by blast
        with 1(2) unseen absent
        have "fst (hasSpecificField_embedded S st fieldName (insert ?t seen))"
          by (simp add: hasSpecificField_struct)
        moreover from absent st have "\<not> list_ex (\<lambda>field. Name field = fieldName) st"
          by (simp add: declaresField_list_ex)
        ultimately obtain f u where f: "f \<in> set st" "Embedded f"
          and u: "(Elem S (Type f), u) \<in> (embeddedStep S)\<^sup>*" "declaresField S fieldName u"
          using 1(1)[OF refl unseen refl st] by blast
        from st f have "(?t, Elem S (Type f)) \<in> embeddedStep S"
          by (auto simp: embeddedStep_iff)
        with u show ?thesis by (meson converse_rtrancl_into_rtrancl)
      next
        case False
        with 1(2) unseen show ?thesis by (simp add: hasSpecificField_other)
      qed
    qed
  qed
next
  case (2 S fieldName seen)
  then show ?case by simp
next
  case (3 S field rest fieldName seen)
  show ?case
  proof (cases "Embedded field")
    case False
    with 3(3,4) show ?thesis by auto
  next
    case emb: True
    obtain b y where r: "hasSpecificField S (Type field) fieldName seen = (b, y)"
      by (cases "hasSpecificField S (Type field) fieldName seen")
    show ?thesis
    proof (cases b)
      case True
      with r 3(1)[OF emb] emb show ?thesis by simp
    next
      case False
      then have "b = False" by simp
      from False r emb 3(4) have "fst (hasSpecificField_embedded S rest fieldName y)" by simp
      from 3(2)[OF emb r[symmetric] \<open>b = False\<close> this] show ?thesis by auto
    qed
  qed
qed

lemma hasSpecificField_complete:
  "hasSpecificField S t0 fieldName seen = (False, seen') \<Longrightarrow>
     Elem S t0 \<in> seen' \<and> explored (embeddedStep S) (declaresField S fieldName) seen seen'"
  "hasSpecificField_embedded S fs fieldName seen = (False, seen') \<Longrightarrow>
     (\<forall>f \<in> set fs. Embedded f \<longrightarrow> Elem S (Type f) \<in> seen') \<and>
     explored (embeddedStep S) (declaresField S fieldName) seen seen'"
proof (induction S t0 fieldName seen and S fs fieldName seen arbitrary: seen' and seen'
    rule: hasSpecificField_hasSpecificField_embedded.induct)
  case (1 S t0 fieldName seen)
  let ?t = "Elem S t0"
  show ?case
  proof (cases "?t \<in> seen")
    case True
    with 1(2) show ?thesis by (simp add: hasSpecificField_seen explored_refl)
  next
    case unseen: False
    show ?thesis
    proof (cases "declaresField S fieldName ?t")
      case True
      with 1(2) unseen show ?thesis by (simp add: hasSpecificField_found)
    next
      case absent: False
      show ?thesis
      proof (cases "\<exists>st. Underlying S ?t = Struct st")
        case True
        then obtain st where st: "Underlying S ?t = Struct st" by blast
        with 1(2) unseen absent
        have l: "hasSpecificField_embedded S st fieldName (insert ?t seen) = (False, seen')"
          by (simp add: hasSpecificField_struct)
        from absent st have "\<not> list_ex (\<lambda>field. Name field = fieldName) st"
          by (simp add: declaresField_list_ex)
        from 1(1)[OF refl unseen refl st this l]
        have fs: "\<forall>f \<in> set st. Embedded f \<longrightarrow> Elem S (Type f) \<in> seen'"
          and ex: "explored (embeddedStep S) (declaresField S fieldName) (insert ?t seen) seen'"
          by blast+
        from ex have t: "?t \<in> seen'" by (auto simp: explored_def)
        have "explored (embeddedStep S) (declaresField S fieldName) seen seen'"
          unfolding explored_def
        proof (intro conjI ballI allI impI)
          show "seen \<subseteq> seen'" using ex by (auto simp: explored_def)
        next
          fix n assume "n \<in> seen' - seen"
          with ex absent show "\<not> declaresField S fieldName n"
            by (cases "n = ?t") (auto simp: explored_def)
        next
          fix n m assume n: "n \<in> seen' - seen" and m: "(n, m) \<in> embeddedStep S"
          show "m \<in> seen'"
          proof (cases "n = ?t")
            case True
            with m st fs show ?thesis by (auto simp: embeddedStep_iff)
          next
            case False
            with n m ex show ?thesis by (auto simp: explored_def)
          qed
        qed
        with t show ?thesis by simp
      next
        case False
        with 1(2) unseen have s: "seen' = insert ?t seen"
          by (simp add: hasSpecificField_other)
        from False have "\<And>m. (?t, m) \<notin> embeddedStep S" by (simp add: embeddedStep_none)
        with s absent show ?thesis by (auto simp: explored_def)
      qed
    qed
  qed
next
  case (2 S fieldName seen)
  then show ?case by (simp add: explored_refl)
next
  case (3 S field rest fieldName seen)
  show ?case
  proof (cases "Embedded field")
    case False
    with 3(4) have "hasSpecificField_embedded S rest fieldName seen = (False, seen')" by simp
    from 3(3)[OF False this] False show ?thesis by simp
  next
    case emb: True
    obtain b y where r: "hasSpecificField S (Type field) fieldName seen = (b, y)"
      by (cases "hasSpecificField S (Type field) fieldName seen")
    with 3(4) emb have b: "b = False" by (cases b) simp_all
    with r 3(4) emb have l: "hasSpecificField_embedded S rest fieldName y = (False, seen')"
      by simp
    from r b have r': "hasSpecificField S (Type field) fieldName seen = (False, y)" by simp
    from 3(1)[OF emb r'] have f: "Elem S (Type field) \<in> y"
      and e1: "explored (embeddedStep S) (declaresField S fieldName) seen y" by blast+
    from 3(2)[OF emb r[symmetric] b l]
    have fs: "\<forall>f \<in> set rest. Embedded f \<longrightarrow> Elem S (Type f) \<in> seen'"
      and e2: "explored (embeddedStep S) (declaresField S fieldName) y seen'" by blast+
    from e2 f have "Elem S (Type field) \<in> seen'" by (auto simp: explored_def)
    with fs explored_trans[OF e1 e2] show ?thesis by simp
  qed
qed

lemma hasSpecificField_iff_fieldPresent:
  "fst (hasSpecificField S t fieldName {}) \<longleftrightarrow> fieldPresent S t fieldName"
proof
  assume "fst (hasSpecificField S t fieldName {})"
  then show "fieldPresent S t fieldName"
    unfolding fieldPresent_def by (rule hasSpecificField_sound(1))
next
  assume r: "fieldPresent S t fieldName"
  show "fst (hasSpecificField S t fieldName {})"
  proof (rule ccontr)
    assume "\<not> fst (hasSpecificField S t fieldName {})"
    then obtain seen' where "hasSpecificField S t fieldName {} = (False, seen')"
      by (cases "hasSpecificField S t fieldName {}") auto
    from hasSpecificField_complete(1)[OF this] explored_closed r
    show False unfolding fieldPresent_def by blast
  qed
qed

lemma getAllPaginationTokenFields_fields_filter:
  "getAllPaginationTokenFields_fields S t serviceFields found =
     found @ filter (fieldPresent S t) serviceFields"
  by (induction serviceFields arbitrary: found)
     (simp_all add: hasSpecificField_iff_fieldPresent Let_def)

lemma apiSpecific_not_default:
  "apiSpecificPaginationFields k = Some fs \<Longrightarrow>
     set fs \<inter> set defaultPaginationTokenFields = {}"
  by (auto simp: apiSpecificPaginationFields_def defaultPaginationTokenFields_def
      split: if_splits)

text \<open>
  C2. For a non-empty service name whose lower-case form has registered fields \<open>fs\<close>,
  of which at least one is structurally present in \<open>t\<close>,
  \<open>getAllPaginationTokenFields\<close> returns the present fields of \<open>fs\<close> in their registered
  order, and none of them is a field of the default list, whatever default fields \<open>t\<close>
  has.
\<close>

theorem service_fields_suppress_default_fields:
  assumes "svc \<noteq> ''''"
    and "apiSpecificPaginationFields (ToLower svc) = Some fs"
    and "f \<in> set fs"
    and "fieldPresent S t f"
  shows "getAllPaginationTokenFields cfg S t svc = filter (fieldPresent S t) fs \<and>
         set (getAllPaginationTokenFields cfg S t svc) \<inter> set defaultPaginationTokenFields = {}"
proof -
  from assms(3,4) have "filter (fieldPresent S t) fs \<noteq> []"
    by (auto simp: filter_empty_conv)
  with assms(1,2) have g: "getAllPaginationTokenFields cfg S t svc = filter (fieldPresent S t) fs"
    by (simp add: getAllPaginationTokenFields_def getAllPaginationTokenFields_fields_filter)
  moreover from apiSpecific_not_default[OF assms(2)]
  have "set (filter (fieldPresent S t) fs) \<inter> set defaultPaginationTokenFields = {}"
    by auto
  ultimately show ?thesis by simp
qed


lemma zonesStore_fields:
  "fieldPresent zonesStore 0 ''IsTruncated''"
  "\<not> fieldPresent zonesStore 0 ''NextRecordName''"
  "\<not> fieldPresent zonesStore 0 ''NextRecordType''"
  "\<not> fieldPresent zonesStore 0 ''NextRecordIdentifier''"
  unfolding hasSpecificField_iff_fieldPresent[symmetric]
  by (simp_all add: hasSpecificField.simps zonesStore_def Elem_def Underlying_def typeAt_def
      Let_def)

theorem service_fields_suppress_default_fields_witness:
  "''route53'' \<noteq> '''' \<and>
   apiSpecificPaginationFields (ToLower ''route53'') =
     Some [''IsTruncated'', ''NextRecordName'', ''NextRecordType'', ''NextRecordIdentifier''] \<and>
   fieldPresent zonesStore 0 ''IsTruncated'' \<and>
   fst (hasPaginationTokenFieldRecursive defaultConfig zonesStore 0 {}) = ''NextMarker'' \<and>
   getAllPaginationTokenFields defaultConfig zonesStore 0 ''route53'' = [''IsTruncated'']"
proof -
  have a: "''route53'' \<noteq> ''''" by simp
  have b: "apiSpecificPaginationFields (ToLower ''route53'') =
     Some [''IsTruncated'', ''NextRecordName'', ''NextRecordType'', ''NextRecordIdentifier'']"
    by (simp add: apiSpecificPaginationFields_def ToLower_def toLowerChar_def)
  have c: "''IsTruncated'' \<in>
      set [''IsTruncated'', ''NextRecordName'', ''NextRecordType'', ''NextRecordIdentifier'']"
    by simp
  have d: "fst (hasPaginationTokenFieldRecursive defaultConfig zonesStore 0 {}) = ''NextMarker''"
    by (simp add: hasPaginationTokenFieldRecursive.simps zonesStore_def Elem_def Underlying_def
        typeAt_def Let_def getPaginationTokenFields_def defaultPaginationTokenFields_def
        defaultConfig_def)
  from service_fields_suppress_default_fields[OF a b c zonesStore_fields(1), of defaultConfig]
  have e: "getAllPaginationTokenFields defaultConfig zonesStore 0 ''route53'' = [''IsTruncated'']"
    by (simp add: zonesStore_fields)
  show ?thesis
    using a b zonesStore_fields(1) d e by (intro conjI)
qed

end
